theory Spec2Isabelle
  imports Main "HOL-Library.Multiset"
begin

section \<open>JavaScript values\<close>

text \<open>
  The values that \<^verbatim>\<open>deepEqual\<close> (public/deepCompare.js) walks over are the values that
  \<^verbatim>\<open>response.json()\<close> delivers: null, booleans, numbers, strings, arrays and objects;
  \<^verbatim>\<open>undefined\<close> is what a read of a missing property gives. Numbers are the integers of
  the entity records (\<^verbatim>\<open>id\<close>, \<^verbatim>\<open>powerLevel\<close>); NaN, the one number that is not
  \<^verbatim>\<open>===\<close> to itself, never comes out of a JSON text. An object is the list of its own
  enumerable properties in the order of \<^verbatim>\<open>Object.keys\<close>; a JavaScript object holds each
  key once, which the properties below state as \<open>distinct (Object_keys v)\<close>.
\<close>

datatype val =
    JUndefined
  | JNull
  | JBool bool
  | JNum int
  | JStr string
  | JArr "val list"
  | JObj "(string \<times> val) list"

datatype js_type = T_undefined | T_object | T_boolean | T_number | T_string

text \<open>\<^verbatim>\<open>typeof\<close>: null and arrays are of type 'object'.\<close>

fun typeof :: "val \<Rightarrow> js_type" where
  "typeof JUndefined = T_undefined"
| "typeof JNull = T_object"
| "typeof (JBool b) = T_boolean"
| "typeof (JNum n) = T_number"
| "typeof (JStr s) = T_string"
| "typeof (JArr xs) = T_object"
| "typeof (JObj kvs) = T_object"

text \<open>
  \<^verbatim>\<open>===\<close> compares primitives by type and value, without coercion, and two composites by
  reference. The records compared by this program come out of separate
  \<^verbatim>\<open>JSON.parse\<close> calls (the held snapshot from an earlier response, the fresh one from
  the current response), so two composites are never one and the same object: on a pair
  of composites \<^verbatim>\<open>===\<close> is false. Lemma \<open>deepEqual_refl\<close> below shows that nothing is lost:
  on one and the same value the structural walk answers true as the shortcut would.
\<close>

fun strict_eq :: "val \<Rightarrow> val \<Rightarrow> bool" where
  "strict_eq JUndefined JUndefined = True"
| "strict_eq JNull JNull = True"
| "strict_eq (JBool a) (JBool b) = (a = b)"
| "strict_eq (JNum a) (JNum b) = (a = b)"
| "strict_eq (JStr a) (JStr b) = (a = b)"
| "strict_eq a b = False"

text \<open>The keys of an array are its indices in decimal: \<^verbatim>\<open>Object.keys([7, 8])\<close> is
  \<^verbatim>\<open>["0", "1"]\<close>.\<close>

definition digit_char :: "nat \<Rightarrow> char" where
  "digit_char d = ''0123456789'' ! d"

fun string_of_nat :: "nat \<Rightarrow> string" where
  "string_of_nat n =
     (if n < 10 then [digit_char n]
      else string_of_nat (n div 10) @ [digit_char (n mod 10)])"

declare string_of_nat.simps [simp del]

text \<open>Own enumerable properties; a primitive has none.\<close>

fun props :: "val \<Rightarrow> (string \<times> val) list" where
  "props (JObj kvs) = kvs"
| "props (JArr xs) = zip (map string_of_nat [0..<length xs]) xs"
| "props v = []"

definition Object_keys :: "val \<Rightarrow> string list" where
  "Object_keys v = map fst (props v)"

text \<open>\<^verbatim>\<open>obj[key]\<close>: the value stored under the key, \<^verbatim>\<open>undefined\<close> when there is none.
  \<^verbatim>\<open>deepEqual\<close> reads only keys that \<^verbatim>\<open>Object.keys\<close> returned.\<close>

definition get :: "val \<Rightarrow> string \<Rightarrow> val" where
  "get v key = (case map_of (props v) key of Some x \<Rightarrow> x | None \<Rightarrow> JUndefined)"

lemma size_props: "(k, x) \<in> set (props v) \<Longrightarrow> size x < size v"
proof (cases v)
  case (JArr xs)
  assume "(k, x) \<in> set (props v)"
  with JArr have "x \<in> set xs" by (auto dest: set_zip_rightD)
  then have "size x \<le> size_list size xs" by (simp add: size_list_estimation')
  with JArr show ?thesis by simp
next
  case (JObj kvs)
  assume "(k, x) \<in> set (props v)"
  with JObj have m: "(k, x) \<in> set kvs" by simp
  have "size x \<le> size_prod (\<lambda>_. 0) size (k, x)" by simp
  also from m have "\<dots> \<le> size_list (size_prod (\<lambda>_. 0) size) kvs"
    by (simp add: size_list_estimation')
  finally show ?thesis using JObj by simp
qed simp_all

lemma size_get: "key \<in> set (Object_keys a) \<Longrightarrow> size (get a key) < size a"
  unfolding Object_keys_def get_def
  by (auto split: option.splits dest!: map_of_SomeD size_props simp: map_of_eq_None_iff)

section \<open>The Equality Checker\<close>

text \<open>
  \<^verbatim>\<open>
  export const deepEqual = (obj1, obj2) => {
    if (obj1 === obj2) return true;
    if (typeof obj1 !== 'object' || obj1 === null ||
        typeof obj2 !== 'object' || obj2 === null) { return false; }
    const keys1 = Object.keys(obj1);
    const keys2 = Object.keys(obj2);
    if (keys1.length !== keys2.length) return false;
    for (let key of keys1) {
      if (!keys2.includes(key)) return false;
      if (typeof obj1[key] === 'object' && typeof obj2[key] === 'object') {
        if (!deepEqual(obj1[key], obj2[key])) return false;
      } else {
        if (obj1[key] !== obj2[key]) return false;
      }
    }
    return true;
  };
  \<close>
  The loop returns false at the first key that fails and true when none does: it is the
  conjunction over \<open>keys1\<close>. The recursion descends into a property of \<open>obj1\<close>, so it ends
  on every value (values are finite trees: no cycles).
\<close>

function deepEqual :: "val \<Rightarrow> val \<Rightarrow> bool" where
  "deepEqual obj1 obj2 =
     (if strict_eq obj1 obj2 then True
      else if typeof obj1 \<noteq> T_object \<or> obj1 = JNull \<or>
              typeof obj2 \<noteq> T_object \<or> obj2 = JNull then False
      else
        let keys1 = Object_keys obj1; keys2 = Object_keys obj2 in
        if length keys1 \<noteq> length keys2 then False
        else list_all (\<lambda>key.
               if key \<notin> set keys2 then False
               else if typeof (get obj1 key) = T_object \<and> typeof (get obj2 key) = T_object
                 then deepEqual (get obj1 key) (get obj2 key)
               else strict_eq (get obj1 key) (get obj2 key)) keys1)"
  by pat_completeness auto
termination
  by (relation "measure (\<lambda>(a, b). size a)") (auto simp: size_get)

declare deepEqual.simps [simp del]

text \<open>A composite record: of type 'object' and not null.\<close>

definition composite :: "val \<Rightarrow> bool" where
  "composite v = (typeof v = T_object \<and> v \<noteq> JNull)"

section \<open>The client: held snapshot and fetch cycle\<close>

text \<open>
  An entity as the server builds it (\<^verbatim>\<open>id\<close>, \<^verbatim>\<open>name\<close>, \<^verbatim>\<open>image\<close>, \<^verbatim>\<open>powerLevel\<close>) and as the
  client reads it. \<open>id_p\<close> and \<open>image_p\<close> are the fields \<^verbatim>\<open>id\<close> and \<^verbatim>\<open>image\<close>.
\<close>

record pokemon =
  id_p :: int
  name :: string
  image_p :: string
  powerLevel :: int

definition pokemon_val :: "pokemon \<Rightarrow> val" where
  "pokemon_val p =
     JObj [(''id'', JNum (id_p p)), (''name'', JStr (name p)),
           (''image'', JStr (image_p p)), (''powerLevel'', JNum (powerLevel p))]"

text \<open>
  Modelled from the spec: \<^verbatim>\<open>isEqual\<close>, which \<^verbatim>\<open>fetchPokemons\<close> calls and no source file
  declares (app.js has the import of \<^verbatim>\<open>deepEqual\<close> commented out and the comment
  "Compare entire objects using deepEqual"). The specification makes the Equality Checker
  the test that decides whether a reconciliation update is needed, so \<open>isEqual\<close> is
  \<open>deepEqual\<close> on the two records.
\<close>

definition isEqual :: "pokemon \<Rightarrow> pokemon \<Rightarrow> bool" where
  "isEqual a b = deepEqual (pokemon_val a) (pokemon_val b)"

text \<open>
  What a cycle does to the page, in the order it does it: \<open>Create\<close> is a card built and
  appended (\<^verbatim>\<open>renderPokemons\<close> for every record of the first load,
  \<^verbatim>\<open>createPokemonCard\<close> and \<^verbatim>\<open>appendChild\<close> later), \<open>Update\<close> is a call of
  \<^verbatim>\<open>updatePokemonUI\<close>, \<open>Delete\<close> is the removal branch of the second loop (the record
  leaves the held snapshot and its card, when there is one, leaves the page).
\<close>

datatype ui_op = Create pokemon | Update pokemon | Delete pokemon

text \<open>The state the two loops thread: \<^verbatim>\<open>localPokemons\<close> and the operations so far.\<close>

type_synonym client = "pokemon list \<times> ui_op list"

text \<open>
  \<^verbatim>\<open>localPokemons.indexOf(localPokemon)\<close> looks, by reference, for the object that
  \<^verbatim>\<open>find\<close> has just returned. \<^verbatim>\<open>find\<close> returns the first element that satisfies the
  test, and no earlier place can hold that same object (it would have satisfied the test
  there), so the index is the place where \<^verbatim>\<open>find\<close> stopped.
\<close>

definition indexOf_found :: "(pokemon \<Rightarrow> bool) \<Rightarrow> pokemon list \<Rightarrow> nat" where
  "indexOf_found P xs = length (takeWhile (\<lambda>x. \<not> P x) xs)"

text \<open>
  The callback of \<^verbatim>\<open>data.forEach\<close>:
  \<^verbatim>\<open>
  const localPokemon = localPokemons.find(p => p.id === serverPokemon.id);
  if (localPokemon) {
    if (!isEqual(localPokemon, serverPokemon)) {
      updatePokemonUI(serverPokemon);
      localPokemons[localPokemons.indexOf(localPokemon)] = serverPokemon;
    }
  } else {
    localPokemons.push(serverPokemon);
    const card = createPokemonCard(serverPokemon);
    pokemonContainer.appendChild(card);
  }
  \<close>
\<close>

definition on_server_pokemon :: "pokemon \<Rightarrow> client \<Rightarrow> client" where
  "on_server_pokemon serverPokemon s =
     (case s of (localPokemons, ops) \<Rightarrow>
        (case find (\<lambda>p. id_p p = id_p serverPokemon) localPokemons of
           Some localPokemon \<Rightarrow>
             if \<not> isEqual localPokemon serverPokemon
             then (localPokemons
                     [indexOf_found (\<lambda>p. id_p p = id_p serverPokemon) localPokemons := serverPokemon],
                   ops @ [Update serverPokemon])
             else (localPokemons, ops)
         | None \<Rightarrow> (localPokemons @ [serverPokemon], ops @ [Create serverPokemon])))"

text \<open>
  The callback of \<^verbatim>\<open>localPokemons.forEach\<close>:
  \<^verbatim>\<open>
  const exists = data.find(p => p.id === localPokemon.id);
  if (!exists) {
    localPokemons = localPokemons.filter(p => p.id !== localPokemon.id);
    const card = document.getElementById(`pokemon-${localPokemon.id}`);
    if (card) { pokemonContainer.removeChild(card); }
  }
  \<close>
  The assignment gives the variable a new array; \<^verbatim>\<open>forEach\<close> keeps walking the array it
  was called on.
\<close>

definition on_local_pokemon :: "pokemon list \<Rightarrow> pokemon \<Rightarrow> client \<Rightarrow> client" where
  "on_local_pokemon data localPokemon s =
     (case s of (localPokemons, ops) \<Rightarrow>
        (case find (\<lambda>p. id_p p = id_p localPokemon) data of
           None \<Rightarrow> (filter (\<lambda>p. id_p p \<noteq> id_p localPokemon) localPokemons,
                    ops @ [Delete localPokemon])
         | Some exists \<Rightarrow> (localPokemons, ops)))"

definition update_pass :: "pokemon list \<Rightarrow> pokemon list \<Rightarrow> client" where
  "update_pass localPokemons data = fold on_server_pokemon data (localPokemons, [])"

definition delete_pass :: "pokemon list \<Rightarrow> client \<Rightarrow> client" where
  "delete_pass data s = fold (on_local_pokemon data) (fst s) s"

text \<open>
  The body of \<^verbatim>\<open>fetchPokemons\<close> once the response is parsed: the first load
  (\<^verbatim>\<open>if (!localPokemons.length) { localPokemons = data; renderPokemons(data); }\<close>) or the
  two loops. The result is the held snapshot after the cycle and the operations of the
  cycle.
\<close>

definition reconcile :: "pokemon list \<Rightarrow> pokemon list \<Rightarrow> client" where
  "reconcile localPokemons data =
     (if length localPokemons = 0 then (data, map Create data)
      else delete_pass data (update_pass localPokemons data))"

text \<open>
  What \<^verbatim>\<open>await fetch('/api/pokemons')\<close> and \<^verbatim>\<open>await response.json()\<close> can give: the
  request throws; or a response arrives with its \<^verbatim>\<open>ok\<close> flag and a body that parses to a
  list of records (\<open>Some\<close>) or does not parse (\<open>None\<close>, \<^verbatim>\<open>json()\<close> throws). Every throw
  lands in the one \<^verbatim>\<open>catch\<close>, which writes to the console.
\<close>

datatype fetched = Network_failure | Http_response bool "pokemon list option"

record cycle =
  local_after :: "pokemon list"
  emitted :: "ui_op list"
  console_error :: bool

definition fetchPokemons :: "fetched \<Rightarrow> pokemon list \<Rightarrow> cycle" where
  "fetchPokemons r localPokemons =
     (case r of
        Network_failure \<Rightarrow>
          \<lparr>local_after = localPokemons, emitted = [], console_error = True\<rparr>
      | Http_response ok parsed \<Rightarrow>
          if \<not> ok then \<lparr>local_after = localPokemons, emitted = [], console_error = True\<rparr>
          else (case parsed of
                  None \<Rightarrow> \<lparr>local_after = localPokemons, emitted = [], console_error = True\<rparr>
                | Some data \<Rightarrow>
                    (case reconcile localPokemons data of (l, ops) \<Rightarrow>
                       \<lparr>local_after = l, emitted = ops, console_error = False\<rparr>)))"

text \<open>A cycle that ended in the \<^verbatim>\<open>catch\<close> before any record was looked at.\<close>

fun failed :: "fetched \<Rightarrow> bool" where
  "failed Network_failure = True"
| "failed (Http_response ok parsed) = (\<not> ok \<or> parsed = None)"

text \<open>
  \<^verbatim>\<open>fetchPokemons(); setInterval(fetchPokemons, 5000);\<close> with the cycles one after the
  other: each tick runs a cycle on what the one before left, whatever its outcome.
\<close>

fun poll :: "fetched list \<Rightarrow> pokemon list \<Rightarrow> pokemon list" where
  "poll [] localPokemons = localPokemons"
| "poll (r # rs) localPokemons = poll rs (local_after (fetchPokemons r localPokemons))"

section \<open>The server: the power route\<close>

text \<open>
  A JavaScript number is an IEEE 754 double. The numbers of the route are integers (the
  stored \<^verbatim>\<open>powerLevel\<close> starts as \<^verbatim>\<open>Math.floor(Math.random() * 100)\<close>, and \<open>change\<close>
  is an integer), so a number is an integer that a double can hold, or an infinity, which
  is what a sum beyond the largest double becomes. With a finite \<open>change\<close> no sum is NaN.
\<close>

datatype number = Int_num int | Pos_Infinity | Neg_Infinity

text \<open>The number of binary digits of a positive integer.\<close>

function bit_length :: "int \<Rightarrow> nat" where
  "bit_length m = (if m \<le> 0 then 0 else Suc (bit_length (m div 2)))"
  by pat_completeness auto
termination
  by (relation "measure nat") auto

declare bit_length.simps [simp del]

text \<open>
  Rounding to the nearest double, ties to the even significand: a magnitude below \<open>2^53\<close>
  is exact; a larger one keeps its 53 leading binary digits, the rest rounded to nearest.
\<close>

definition round_magnitude :: "int \<Rightarrow> int" where
  "round_magnitude m =
     (if m < 2 ^ 53 then m
      else
        let ulp = 2 ^ (bit_length m - 53); q = m div ulp; r = m mod ulp in
        if 2 * r < ulp \<or> (2 * r = ulp \<and> even q) then q * ulp else (q + 1) * ulp)"

text \<open>The double nearest to an integer; what rounds to \<open>2^1024\<close> or beyond is an
  infinity.\<close>

definition to_double :: "int \<Rightarrow> number" where
  "to_double n =
     (let m = round_magnitude \<bar>n\<bar> in
      if 2 ^ 1024 \<le> m then (if n < 0 then Neg_Infinity else Pos_Infinity)
      else Int_num (if n < 0 then - m else m))"

text \<open>An integer that is a double: rounding leaves it as it is.\<close>

definition is_double :: "int \<Rightarrow> bool" where
  "is_double n = (to_double n = Int_num n)"

text \<open>\<^verbatim>\<open>pokemon.powerLevel + change\<close> for a finite \<open>change\<close>: the exact sum of the two doubles,
  rounded to the nearest double.\<close>

fun plus_change :: "number \<Rightarrow> int \<Rightarrow> number" where
  "plus_change (Int_num a) change = to_double (a + change)"
| "plus_change Pos_Infinity change = Pos_Infinity"
| "plus_change Neg_Infinity change = Neg_Infinity"

text \<open>\<^verbatim>\<open>pokemon.powerLevel < 0\<close>.\<close>

fun below_zero :: "number \<Rightarrow> bool" where
  "below_zero (Int_num a) = (a < 0)"
| "below_zero Pos_Infinity = False"
| "below_zero Neg_Infinity = True"

text \<open>
  An entity of the in-memory store \<^verbatim>\<open>pokemons\<close>, as \<^verbatim>\<open>fetchPokemons\<close> of server.js
  builds it; \<open>id_s\<close>, \<open>name_s\<close>, \<open>image_s\<close> and \<open>powerLevel_s\<close> are its fields
  \<^verbatim>\<open>id\<close>, \<^verbatim>\<open>name\<close>, \<^verbatim>\<open>image\<close> and \<^verbatim>\<open>powerLevel\<close>.
\<close>

record stored_pokemon =
  id_s :: int
  name_s :: string
  image_s :: string
  powerLevel_s :: number

text \<open>The object handed to \<^verbatim>\<open>res.json\<close>, and the status of the answer.\<close>

datatype json_body = Pokemon_body bool stored_pokemon | Message_body bool string

record response =
  status :: nat
  json :: json_body

definition not_found_message :: string where
  "not_found_message = ''Pok'' @ [char_of (0xC3 :: nat), char_of (0xA9 :: nat)] @ ''mon not found''"

text \<open>The place where \<^verbatim>\<open>find\<close> stops: the index of the first element that satisfies
  the test.\<close>

definition place_found :: "('a \<Rightarrow> bool) \<Rightarrow> 'a list \<Rightarrow> nat" where
  "place_found P xs = length (takeWhile (\<lambda>x. \<not> P x) xs)"

text \<open>
  \<^verbatim>\<open>
  app.post('/api/pokemons/:id/power', (req, res) => {
    const pokemonId = parseInt(req.params.id);
    const { change } = req.body;
    const pokemon = pokemons.find(p => p.id === pokemonId);
    if (pokemon) {
      pokemon.powerLevel += change;
      if (pokemon.powerLevel < 0) pokemon.powerLevel = 0;
      res.json({ success: true, pokemon });
    } else {
      res.status(404).json({ success: false, message: '... not found' });
    }
  });
  \<close>
  \<^verbatim>\<open>parseInt\<close> gives an integer or NaN (\<open>None\<close>, equal to no id). \<open>change\<close> is the
  integer of the request body as a JavaScript number (\<open>is_double change\<close>). The object
  that \<^verbatim>\<open>find\<close> returned is changed in place, so the store changes at the place where
  \<^verbatim>\<open>find\<close> stopped. \<^verbatim>\<open>res.json\<close> answers with status 200 unless \<^verbatim>\<open>res.status\<close> has
  set another.
\<close>

definition power_route ::
  "int option \<Rightarrow> int \<Rightarrow> stored_pokemon list \<Rightarrow> stored_pokemon list \<times> response" where
  "power_route pokemonId change pokemons =
     (case find (\<lambda>p. Some (id_s p) = pokemonId) pokemons of
        Some pokemon \<Rightarrow>
          let pokemon1 = pokemon\<lparr>powerLevel_s := plus_change (powerLevel_s pokemon) change\<rparr>;
              pokemon2 = (if below_zero (powerLevel_s pokemon1)
                          then pokemon1\<lparr>powerLevel_s := Int_num 0\<rparr> else pokemon1)
          in (pokemons[place_found (\<lambda>p. Some (id_s p) = pokemonId) pokemons := pokemon2],
              \<lparr>status = 200, json = Pokemon_body True pokemon2\<rparr>)
      | None \<Rightarrow> (pokemons, \<lparr>status = 404, json = Message_body False not_found_message\<rparr>))"

section \<open>Vocabulary of the properties\<close>

fun record_of :: "ui_op \<Rightarrow> pokemon" where
  "record_of (Create p) = p"
| "record_of (Update p) = p"
| "record_of (Delete p) = p"

fun is_Create :: "ui_op \<Rightarrow> bool" where
  "is_Create (Create p) = True"
| "is_Create op = False"

fun is_Delete :: "ui_op \<Rightarrow> bool" where
  "is_Delete (Delete p) = True"
| "is_Delete op = False"

text \<open>The ids of a snapshot, and the operations of a cycle that concern the id of \<open>f\<close>.\<close>

definition ids :: "pokemon list \<Rightarrow> int set" where
  "ids xs = id_p ` set xs"

definition about :: "pokemon \<Rightarrow> ui_op list \<Rightarrow> ui_op list" where
  "about f ops = filter (\<lambda>op. id_p (record_of op) = id_p f) ops"

text \<open>One round of the first loop, split into what it does to the snapshot and what it
  emits (lemma \<open>on_server_pokemon_eq\<close>).\<close>

definition upsert :: "pokemon \<Rightarrow> pokemon list \<Rightarrow> pokemon list" where
  "upsert f L =
     (if id_p f \<in> ids L then L[indexOf_found (\<lambda>p. id_p p = id_p f) L := f] else L @ [f])"

definition step_ops :: "pokemon list \<Rightarrow> pokemon \<Rightarrow> ui_op list" where
  "step_ops L f = (case find (\<lambda>p. id_p p = id_p f) L of
                     None \<Rightarrow> [Create f]
                   | Some p \<Rightarrow> if isEqual p f then [] else [Update f])"

text \<open>Records for the examples.\<close>

definition bulbasaur10 :: pokemon where
  "bulbasaur10 = \<lparr>id_p = 1, name = ''bulbasaur'', image_p = ''1.png'', powerLevel = 10\<rparr>"

definition bulbasaur11 :: pokemon where
  "bulbasaur11 = \<lparr>id_p = 1, name = ''bulbasaur'', image_p = ''1.png'', powerLevel = 11\<rparr>"

definition ivysaur3 :: pokemon where
  "ivysaur3 = \<lparr>id_p = 2, name = ''ivysaur'', image_p = ''2.png'', powerLevel = 3\<rparr>"

definition ivysaur4 :: pokemon where
  "ivysaur4 = \<lparr>id_p = 2, name = ''ivysaur'', image_p = ''2.png'', powerLevel = 4\<rparr>"

text \<open>A stored number: a double or an infinity; a number that is at least 0; and the
  value the route stores, the rounded sum clamped at 0.\<close>

fun is_number :: "number \<Rightarrow> bool" where
  "is_number (Int_num a) = is_double a"
| "is_number Pos_Infinity = True"
| "is_number Neg_Infinity = True"

fun at_least_zero :: "number \<Rightarrow> bool" where
  "at_least_zero (Int_num a) = (0 \<le> a)"
| "at_least_zero Pos_Infinity = True"
| "at_least_zero Neg_Infinity = False"

definition clamped :: "number \<Rightarrow> int \<Rightarrow> number" where
  "clamped old change =
     (if below_zero (plus_change old change) then Int_num 0 else plus_change old change)"

text \<open>Stored entities for the examples.\<close>

definition stored1 :: stored_pokemon where
  "stored1 = \<lparr>id_s = 1, name_s = ''bulbasaur'', image_s = ''1.png'', powerLevel_s = Int_num 1\<rparr>"

definition stored_huge :: stored_pokemon where
  "stored_huge = \<lparr>id_s = 1, name_s = ''bulbasaur'', image_s = ''1.png'',
                   powerLevel_s = Int_num (2 ^ 1023)\<rparr>"

definition stored3 :: stored_pokemon where
  "stored3 = \<lparr>id_s = 2, name_s = ''ivysaur'', image_s = ''2.png'', powerLevel_s = Int_num 3\<rparr>"

lemmas example_defs = bulbasaur10_def bulbasaur11_def ivysaur3_def ivysaur4_def

section \<open>Lemmas on the Equality Checker\<close>

lemma strict_eq_composite: "composite a \<Longrightarrow> \<not> strict_eq a b" "composite b \<Longrightarrow> \<not> strict_eq a b"
  by (cases a; cases b; simp add: composite_def)+

lemma strict_eq_refl: "\<not> composite v \<Longrightarrow> strict_eq v v"
  by (cases v) (simp_all add: composite_def)

lemma strict_eq_iff: "strict_eq a b \<longleftrightarrow> a = b \<and> \<not> composite a"
  by (cases a; cases b; simp add: composite_def)

lemma deepEqual_primitive:
  "\<not> composite a \<or> \<not> composite b \<Longrightarrow> deepEqual a b = strict_eq a b"
  by (subst deepEqual.simps) (auto simp: composite_def)

lemma deepEqual_field:
  "(if typeof x = T_object \<and> typeof y = T_object then deepEqual x y else strict_eq x y)
     = deepEqual x y"
  by (auto simp: deepEqual_primitive composite_def)

lemma deepEqual_composite_unfold:
  assumes "composite a" "composite b"
  shows "deepEqual a b \<longleftrightarrow>
           length (Object_keys a) = length (Object_keys b) \<and>
           (\<forall>key \<in> set (Object_keys a).
              key \<in> set (Object_keys b) \<and> deepEqual (get a key) (get b key))"
proof -
  have "\<not> strict_eq a b" using assms(1) by (rule strict_eq_composite)
  moreover have "\<not> (typeof a \<noteq> T_object \<or> a = JNull \<or> typeof b \<noteq> T_object \<or> b = JNull)"
    using assms by (simp add: composite_def)
  ultimately show ?thesis
    by (subst deepEqual.simps) (auto simp: Let_def list_all_iff deepEqual_field)
qed

lemma same_keys_iff:
  assumes "distinct ks1" "distinct ks2"
  shows "length ks1 = length ks2 \<and> set ks1 \<subseteq> set ks2 \<longleftrightarrow> set ks1 = set ks2"
proof
  assume h: "length ks1 = length ks2 \<and> set ks1 \<subseteq> set ks2"
  then have "card (set ks1) = card (set ks2)"
    using assms by (simp add: distinct_card)
  with h show "set ks1 = set ks2"
    by (simp add: card_subset_eq)
next
  assume h: "set ks1 = set ks2"
  then have "card (set ks1) = card (set ks2)" by simp
  then have "length ks1 = length ks2" using assms by (simp add: distinct_card)
  with h show "length ks1 = length ks2 \<and> set ks1 \<subseteq> set ks2" by simp
qed

lemma deepEqual_composite_iff:
  assumes "composite a" "composite b"
    and "distinct (Object_keys a)" "distinct (Object_keys b)"
  shows "deepEqual a b \<longleftrightarrow>
           set (Object_keys a) = set (Object_keys b) \<and>
           (\<forall>key \<in> set (Object_keys a). deepEqual (get a key) (get b key))"
proof -
  have "deepEqual a b \<longleftrightarrow>
          (length (Object_keys a) = length (Object_keys b) \<and> set (Object_keys a) \<subseteq> set (Object_keys b)) \<and>
          (\<forall>key \<in> set (Object_keys a). deepEqual (get a key) (get b key))"
    unfolding deepEqual_composite_unfold [OF assms(1,2)] by blast
  then show ?thesis
    unfolding same_keys_iff [OF assms(3,4)] .
qed

lemma deepEqual_refl: "deepEqual v v"
proof (induction v rule: measure_induct_rule [of size])
  case (less v)
  show ?case
  proof (cases "composite v")
    case False
    then show ?thesis by (simp add: deepEqual_primitive strict_eq_refl)
  next
    case True
    then show ?thesis
      by (simp add: deepEqual_composite_unfold less size_get)
  qed
qed

lemma digit_char_inj: "a < 10 \<Longrightarrow> b < 10 \<Longrightarrow> digit_char a = digit_char b \<Longrightarrow> a = b"
proof -
  assume "a < 10" "b < 10" and e: "digit_char a = digit_char b"
  then have "a \<in> set [0..<10]" "b \<in> set [0..<10]" by simp_all
  moreover have "distinct ''0123456789''" by simp
  ultimately show ?thesis using e
    unfolding digit_char_def by (simp add: nth_eq_iff_index_eq)
qed

lemma string_of_nat_length: "10 \<le> n \<Longrightarrow> 2 \<le> length (string_of_nat n)"
  by (subst string_of_nat.simps, cases "n div 10 < 10"; subst string_of_nat.simps; simp)

lemma string_of_nat_inj: "string_of_nat n = string_of_nat m \<Longrightarrow> n = m"
proof (induction n arbitrary: m rule: string_of_nat.induct)
  case (1 n)
  show ?case
  proof (cases "n < 10")
    case True
    note n = this
    show ?thesis
    proof (cases "m < 10")
      case True
      with n 1(2) show ?thesis
        by (simp add: string_of_nat.simps [of n] string_of_nat.simps [of m] digit_char_inj)
    next
      case False
      then have "2 \<le> length (string_of_nat m)" by (simp add: string_of_nat_length)
      moreover have "length (string_of_nat n) = 1" using n by (simp add: string_of_nat.simps [of n])
      ultimately show ?thesis using 1(2) by simp
    qed
  next
    case False
    note n = this
    show ?thesis
    proof (cases "m < 10")
      case True
      have "2 \<le> length (string_of_nat n)" using n by (simp add: string_of_nat_length)
      moreover have "length (string_of_nat m) = 1" using True by (simp add: string_of_nat.simps [of m])
      ultimately show ?thesis using 1(2) by simp
    next
      case False
      from 1(2) n False have
        e: "string_of_nat (n div 10) @ [digit_char (n mod 10)]
              = string_of_nat (m div 10) @ [digit_char (m mod 10)]"
        by (simp add: string_of_nat.simps [of n] string_of_nat.simps [of m])
      then have "string_of_nat (n div 10) = string_of_nat (m div 10)"
        and d: "digit_char (n mod 10) = digit_char (m mod 10)" by simp_all
      then have "n div 10 = m div 10" using 1(1) n by simp
      moreover have "n mod 10 = m mod 10" using d by (simp add: digit_char_inj)
      ultimately show ?thesis by (metis div_mult_mod_eq)
    qed
  qed
qed

lemma distinct_array_keys: "distinct (Object_keys (JArr xs))"
  by (simp add: Object_keys_def distinct_map inj_on_def) (blast dest: string_of_nat_inj)

lemma array_keys: "Object_keys (JArr xs) = map string_of_nat [0..<length xs]"
  by (simp add: Object_keys_def)

lemma array_get: "i < length xs \<Longrightarrow> get (JArr xs) (string_of_nat i) = xs ! i"
proof -
  assume i: "i < length xs"
  let ?ks = "map string_of_nat [0..<length xs]"
  have "distinct ?ks" using distinct_array_keys [of xs] by (simp add: array_keys)
  then have "map_of (zip ?ks xs) (?ks ! i) = Some (xs ! i)"
    using i by (intro map_of_zip_nth) simp_all
  then show ?thesis using i by (simp add: get_def)
qed

lemma deepEqual_arrays:
  "deepEqual (JArr xs) (JArr ys) \<longleftrightarrow> length xs = length ys \<and> list_all2 deepEqual xs ys"
proof (cases "length xs = length ys")
  case False
  then show ?thesis
    by (simp add: deepEqual_composite_unfold composite_def array_keys list_all2_lengthD)
next
  case True
  then show ?thesis
    by (auto simp: deepEqual_composite_unfold composite_def array_keys array_get list_all2_conv_all_nth)
qed

section \<open>Lemmas on the two loops\<close>

lemma isEqual_iff: "isEqual a b \<longleftrightarrow> a = b"
proof -
  have "isEqual a b \<longleftrightarrow>
          id_p a = id_p b \<and> name a = name b \<and> image_p a = image_p b \<and> powerLevel a = powerLevel b"
    unfolding isEqual_def pokemon_val_def
    by (subst deepEqual.simps) (simp add: Object_keys_def get_def)
  then show ?thesis by (cases a; cases b) auto
qed

lemmas run_defs = reconcile_def update_pass_def delete_pass_def on_server_pokemon_def
  on_local_pokemon_def isEqual_iff indexOf_found_def ids_def about_def

lemma find_same_id_None: "find (\<lambda>p. id_p p = i) xs = None \<longleftrightarrow> i \<notin> ids xs"
  by (auto simp: find_None_iff ids_def)

lemma find_same_id_Some: "find (\<lambda>p. id_p p = i) xs = Some p \<Longrightarrow> p \<in> set xs \<and> id_p p = i"
  by (auto simp: find_Some_iff)

lemma find_distinct_ids:
  "distinct (map id_p xs) \<Longrightarrow> p \<in> set xs \<Longrightarrow> find (\<lambda>q. id_p q = id_p p) xs = Some p"
  by (induction xs) (auto simp: image_iff)

lemma indexOf_found_nth:
  "find P xs = Some p \<Longrightarrow> indexOf_found P xs < length xs \<and> xs ! indexOf_found P xs = p"
  by (induction xs) (auto simp: indexOf_found_def split: if_splits)

lemma indexOf_found_distinct:
  "distinct (map id_p xs) \<Longrightarrow> i < length xs \<Longrightarrow>
     indexOf_found (\<lambda>q. id_p q = id_p (xs ! i)) xs = i"
proof (induction xs arbitrary: i)
  case Nil
  then show ?case by simp
next
  case (Cons x xs)
  show ?case
  proof (cases i)
    case 0
    then show ?thesis by (simp add: indexOf_found_def)
  next
    case (Suc j)
    with Cons.prems have "id_p x \<noteq> id_p (xs ! j)" by (auto simp: image_iff)
    with Cons Suc show ?thesis by (simp add: indexOf_found_def)
  qed
qed

text \<open>One round of the first loop, with the Equality Checker resolved by \<open>isEqual_iff\<close>.\<close>

lemma on_server_pokemon_fst:
  "fst (on_server_pokemon f (L, ops)) =
     (if id_p f \<in> ids L then L[indexOf_found (\<lambda>p. id_p p = id_p f) L := f] else L @ [f])"
proof (cases "find (\<lambda>p. id_p p = id_p f) L")
  case None
  moreover from None have "id_p f \<notin> ids L" by (simp add: find_same_id_None)
  ultimately show ?thesis by (simp add: on_server_pokemon_def)
next
  case (Some p)
  then have "id_p f \<in> ids L" using find_same_id_None [of "id_p f" L] by simp
  moreover have "p = f \<Longrightarrow> L[indexOf_found (\<lambda>p. id_p p = id_p f) L := f] = L"
    using indexOf_found_nth [OF Some] by (simp add: list_update_same_conv)
  ultimately show ?thesis using Some
    by (simp add: on_server_pokemon_def isEqual_iff del: list_update_id)
qed

lemma on_server_pokemon_snd:
  "snd (on_server_pokemon f (L, ops)) = ops @ step_ops L f"
  by (simp add: on_server_pokemon_def step_ops_def split: option.splits)

lemma on_server_pokemon_ids:
  "map id_p (fst (on_server_pokemon f (L, ops))) =
     (if id_p f \<in> ids L then map id_p L else map id_p L @ [id_p f])"
proof (cases "find (\<lambda>p. id_p p = id_p f) L")
  case None
  then show ?thesis by (simp add: on_server_pokemon_fst find_same_id_None)
next
  case (Some p)
  then have "id_p f \<in> ids L" using find_same_id_None [of "id_p f" L] by simp
  moreover have "(map id_p L)[indexOf_found (\<lambda>p. id_p p = id_p f) L := id_p f] = map id_p L"
    using indexOf_found_nth [OF Some] find_same_id_Some [OF Some]
    by (simp add: list_update_same_conv)
  ultimately show ?thesis
    by (simp add: on_server_pokemon_fst map_update)
qed

lemma in_ids_iff: "i \<in> ids xs \<longleftrightarrow> (\<exists>x \<in> set xs. id_p x = i)"
  by (auto simp: ids_def)

lemma ids_simps [simp]: "ids [] = {}" "ids (x # xs) = insert (id_p x) (ids xs)"
  "ids (xs @ ys) = ids xs \<union> ids ys"
  by (auto simp: ids_def)

lemma distinct_ids_ConsD:
  assumes "distinct (map id_p (x # xs))"
  shows "id_p x \<notin> ids xs" and "distinct (map id_p xs)"
  using assms by (simp_all add: ids_def)

lemma nth_in_ids: "i < length xs \<Longrightarrow> id_p (xs ! i) \<in> ids xs"
  by (auto simp: in_ids_iff)

lemma find_list_update_other:
  "\<not> P y \<Longrightarrow> (j < length xs \<Longrightarrow> \<not> P (xs ! j)) \<Longrightarrow> find P (xs[j := y]) = find P xs"
proof (induction xs arbitrary: j)
  case Nil
  then show ?case by simp
next
  case (Cons x xs)
  then show ?case by (cases j) auto
qed

lemma find_snoc_other: "\<not> P y \<Longrightarrow> find P (xs @ [y]) = find P xs"
  by (induction xs) auto

lemma find_list_update_first:
  "P y \<Longrightarrow> \<exists>x \<in> set xs. P x \<Longrightarrow> find P (xs[indexOf_found P xs := y]) = Some y"
  by (induction xs) (auto simp: indexOf_found_def)

lemma find_snoc_first: "P y \<Longrightarrow> \<forall>x \<in> set xs. \<not> P x \<Longrightarrow> find P (xs @ [y]) = Some y"
  by (induction xs) auto

lemma find_filter_keep: "(\<And>x. P x \<Longrightarrow> Q x) \<Longrightarrow> find P (filter Q xs) = find P xs"
  by (induction xs) auto

lemma found_index_id:
  assumes "id_p f \<in> ids L"
  shows "indexOf_found (\<lambda>p. id_p p = id_p f) L < length L"
    and "id_p (L ! indexOf_found (\<lambda>p. id_p p = id_p f) L) = id_p f"
proof -
  from assms obtain p where p: "find (\<lambda>p. id_p p = id_p f) L = Some p"
    using find_same_id_None [of "id_p f" L] by (cases "find (\<lambda>p. id_p p = id_p f) L") auto
  show "indexOf_found (\<lambda>p. id_p p = id_p f) L < length L"
    using indexOf_found_nth [OF p] by simp
  show "id_p (L ! indexOf_found (\<lambda>p. id_p p = id_p f) L) = id_p f"
    using indexOf_found_nth [OF p] find_same_id_Some [OF p] by simp
qed

lemma on_server_pokemon_eq:
  "on_server_pokemon f (L, ops) = (upsert f L, ops @ step_ops L f)"
  by (simp add: prod_eq_iff on_server_pokemon_snd on_server_pokemon_fst upsert_def)

lemma upsert_find_other:
  assumes "i \<noteq> id_p f"
  shows "find (\<lambda>p. id_p p = i) (upsert f L) = find (\<lambda>p. id_p p = i) L"
proof (cases "id_p f \<in> ids L")
  case True
  have "find (\<lambda>p. id_p p = i) (L[indexOf_found (\<lambda>p. id_p p = id_p f) L := f])
          = find (\<lambda>p. id_p p = i) L"
    using assms found_index_id(2) [OF True] by (intro find_list_update_other) auto
  with True show ?thesis by (simp add: upsert_def)
next
  case False
  then show ?thesis using assms by (simp add: upsert_def find_snoc_other)
qed

lemma upsert_find_same: "find (\<lambda>p. id_p p = id_p f) (upsert f L) = Some f"
proof (cases "id_p f \<in> ids L")
  case True
  then have "\<exists>x \<in> set L. id_p x = id_p f" by (simp add: in_ids_iff)
  then have "find (\<lambda>p. id_p p = id_p f) (L[indexOf_found (\<lambda>p. id_p p = id_p f) L := f]) = Some f"
    by (intro find_list_update_first) auto
  with True show ?thesis by (simp add: upsert_def)
next
  case False
  then have "\<forall>x \<in> set L. id_p x \<noteq> id_p f" by (simp add: in_ids_iff)
  then have "find (\<lambda>p. id_p p = id_p f) (L @ [f]) = Some f"
    by (intro find_snoc_first) auto
  with False show ?thesis by (simp add: upsert_def)
qed

lemma upsert_nth_other:
  assumes "i < length L" "id_p (L ! i) \<noteq> id_p f"
  shows "upsert f L ! i = L ! i"
proof (cases "id_p f \<in> ids L")
  case True
  have "indexOf_found (\<lambda>p. id_p p = id_p f) L \<noteq> i"
    using found_index_id(2) [OF True] assms(2) by auto
  with True show ?thesis by (simp add: upsert_def)
next
  case False
  then show ?thesis using assms(1) by (simp add: upsert_def nth_append)
qed

lemma upsert_length: "length L \<le> length (upsert f L)"
  by (simp add: upsert_def)

lemma upsert_map_id:
  "map id_p (upsert f L) = (if id_p f \<in> ids L then map id_p L else map id_p L @ [id_p f])"
  using on_server_pokemon_ids [of f L "[]"] by (simp add: on_server_pokemon_eq)

lemma upsert_ids: "ids (upsert f L) = insert (id_p f) (ids L)"
proof -
  have "set (map id_p (upsert f L)) = insert (id_p f) (set (map id_p L))"
    unfolding upsert_map_id by (auto simp: ids_def)
  then show ?thesis by (simp add: ids_def)
qed

lemma upsert_distinct: "distinct (map id_p L) \<Longrightarrow> distinct (map id_p (upsert f L))"
  unfolding upsert_map_id by (simp add: ids_def)

text \<open>The first loop.\<close>

lemma loop1_fst: "fst (fold on_server_pokemon F (L, ops)) = fold upsert F L"
  by (induction F arbitrary: L ops) (simp_all add: on_server_pokemon_eq)

lemma loop1_find_other:
  "i \<notin> ids F \<Longrightarrow> find (\<lambda>p. id_p p = i) (fold upsert F L) = find (\<lambda>p. id_p p = i) L"
  by (induction F arbitrary: L) (simp_all add: upsert_find_other)

lemma loop1_nth_other:
  "i < length L \<Longrightarrow> id_p (L ! i) \<notin> ids F \<Longrightarrow> fold upsert F L ! i = L ! i"
proof (induction F arbitrary: L)
  case Nil
  then show ?case by simp
next
  case (Cons g F)
  from Cons.prems have ne: "id_p (L ! i) \<noteq> id_p g" and rest: "id_p (L ! i) \<notin> ids F"
    by simp_all
  have nth: "upsert g L ! i = L ! i" using Cons.prems(1) ne by (rule upsert_nth_other)
  have len: "i < length (upsert g L)" using Cons.prems(1) upsert_length [of L g] by simp
  have "fold upsert F (upsert g L) ! i = upsert g L ! i"
    using len rest nth by (intro Cons.IH) simp_all
  then show ?case by (simp add: nth)
qed

lemma loop1_find:
  "distinct (map id_p F) \<Longrightarrow> f \<in> set F \<Longrightarrow>
     find (\<lambda>p. id_p p = id_p f) (fold upsert F L) = Some f"
proof (induction F arbitrary: L)
  case Nil
  then show ?case by simp
next
  case (Cons g F)
  show ?case
  proof (cases "g = f")
    case True
    with Cons.prems have "id_p f \<notin> ids F" using distinct_ids_ConsD(1) by blast
    then show ?thesis using True by (simp add: loop1_find_other upsert_find_same)
  next
    case False
    with Cons.prems have "distinct (map id_p F)" "f \<in> set F" by auto
    then show ?thesis by (simp add: Cons.IH)
  qed
qed

lemma loop1_nth:
  "distinct (map id_p F) \<Longrightarrow> f \<in> set F \<Longrightarrow> distinct (map id_p L) \<Longrightarrow> i < length L \<Longrightarrow>
     id_p (L ! i) = id_p f \<Longrightarrow> fold upsert F L ! i = f"
proof (induction F arbitrary: L)
  case Nil
  then show ?case by simp
next
  case (Cons g F)
  show ?case
  proof (cases "g = f")
    case True
    from Cons.prems have in_L: "id_p f \<in> ids L" using nth_in_ids [of i L] by simp
    have "indexOf_found (\<lambda>p. id_p p = id_p f) L = i"
      using indexOf_found_distinct [OF Cons.prems(3,4)] Cons.prems(5) by simp
    then have here: "upsert f L ! i = f" and len: "i < length (upsert f L)"
      using in_L Cons.prems(4) by (simp_all add: upsert_def)
    from True Cons.prems(1) have "id_p f \<notin> ids F" using distinct_ids_ConsD(1) by blast
    then have "fold upsert F (upsert f L) ! i = upsert f L ! i"
      using len here by (intro loop1_nth_other) simp_all
    then show ?thesis using True by (simp add: here)
  next
    case False
    with Cons.prems have d: "distinct (map id_p F)" and m: "f \<in> set F" by auto
    from m have "id_p f \<in> ids F" by (auto simp: in_ids_iff)
    with distinct_ids_ConsD(1) [OF Cons.prems(1)] have ne: "id_p (L ! i) \<noteq> id_p g"
      using Cons.prems(5) by auto
    have nth: "upsert g L ! i = L ! i" using Cons.prems(4) ne by (rule upsert_nth_other)
    have len: "i < length (upsert g L)" using Cons.prems(4) upsert_length [of L g] by simp
    have "fold upsert F (upsert g L) ! i = f"
      using d m upsert_distinct [OF Cons.prems(3)] len nth Cons.prems(5)
      by (intro Cons.IH) simp_all
    then show ?thesis by simp
  qed
qed

lemma loop1_ids: "ids (fold upsert F L) = ids L \<union> ids F"
  by (induction F arbitrary: L) (auto simp: upsert_ids)

lemma loop1_distinct: "distinct (map id_p L) \<Longrightarrow> distinct (map id_p (fold upsert F L))"
  by (induction F arbitrary: L) (simp_all add: upsert_distinct)

lemma loop1_length: "length L \<le> length (fold upsert F L)"
proof (induction F arbitrary: L)
  case Nil
  then show ?case by simp
next
  case (Cons g F)
  show ?case using Cons.IH [of "upsert g L"] upsert_length [of L g] by simp
qed

lemma step_ops_other: "id_p g \<noteq> id_p f \<Longrightarrow> step_ops (upsert f L) g = step_ops L g"
  by (simp add: step_ops_def upsert_find_other)

lemma loop1_snd:
  "distinct (map id_p F) \<Longrightarrow>
     snd (fold on_server_pokemon F (L, ops)) = ops @ concat (map (step_ops L) F)"
proof (induction F arbitrary: L ops)
  case Nil
  then show ?case by simp
next
  case (Cons g F)
  from Cons.prems have d: "distinct (map id_p F)" and ng: "id_p g \<notin> ids F"
    by (rule distinct_ids_ConsD)+
  from ng have ne: "\<forall>h \<in> set F. id_p h \<noteq> id_p g" by (auto simp: in_ids_iff)
  have "map (step_ops (upsert g L)) F = map (step_ops L) F"
    using ne by (intro map_cong) (simp_all add: step_ops_other)
  then have "concat (map (step_ops (upsert g L)) F) = concat (map (step_ops L) F)"
    by (rule arg_cong)
  with Cons.IH [OF d, of "upsert g L" "ops @ step_ops L g"]
  show ?case by (simp add: on_server_pokemon_eq)
qed

lemma loop1_drop:
  "distinct (map id_p F) \<Longrightarrow>
     drop (length L) (fold upsert F L) = filter (\<lambda>f. id_p f \<notin> ids L) F"
proof (induction F arbitrary: L)
  case Nil
  then show ?case by simp
next
  case (Cons g F)
  from Cons.prems have d: "distinct (map id_p F)" and ng: "id_p g \<notin> ids F"
    by (rule distinct_ids_ConsD)+
  show ?case
  proof (cases "id_p g \<in> ids L")
    case True
    then have "length (upsert g L) = length L" "ids (upsert g L) = ids L"
      by (simp add: upsert_def, simp add: upsert_ids insert_absorb)
    with Cons.IH [OF d, of "upsert g L"] True show ?thesis by simp
  next
    case False
    then have up: "upsert g L = L @ [g]" by (simp add: upsert_def)
    have "filter (\<lambda>f. id_p f \<notin> ids (L @ [g])) F = filter (\<lambda>f. id_p f \<notin> ids L) F"
      using ng by (intro filter_cong) (auto simp: in_ids_iff)
    with Cons.IH [OF d, of "L @ [g]"]
    have tail: "drop (Suc (length L)) (fold upsert F (L @ [g])) = filter (\<lambda>f. id_p f \<notin> ids L) F"
      by simp
    have "fold upsert F (L @ [g]) ! length L = (L @ [g]) ! length L"
      using ng by (intro loop1_nth_other) simp_all
    then have here: "fold upsert F (L @ [g]) ! length L = g" by simp
    have "length L < length (fold upsert F (L @ [g]))"
      using loop1_length [of "L @ [g]" F] by simp
    then have "drop (length L) (fold upsert F (L @ [g]))
                 = fold upsert F (L @ [g]) ! length L # drop (Suc (length L)) (fold upsert F (L @ [g]))"
      by (simp add: Cons_nth_drop_Suc)
    with here tail False up show ?thesis by simp
  qed
qed

text \<open>The second loop.\<close>

lemma loop2:
  "fold (on_local_pokemon F) xs (L, ops) =
     (filter (\<lambda>p. id_p p \<in> ids F \<or> id_p p \<notin> ids xs) L,
      ops @ map Delete (filter (\<lambda>p. id_p p \<notin> ids F) xs))"
proof (induction xs arbitrary: L ops)
  case Nil
  then show ?case by simp
next
  case (Cons x xs)
  show ?case
  proof (cases "find (\<lambda>p. id_p p = id_p x) F")
    case None
    then have nx: "id_p x \<notin> ids F" by (simp add: find_same_id_None)
    have "filter (\<lambda>p. id_p p \<in> ids F \<or> id_p p \<notin> ids xs) (filter (\<lambda>p. id_p p \<noteq> id_p x) L)
            = filter (\<lambda>p. id_p p \<in> ids F \<or> id_p p \<notin> ids (x # xs)) L"
      using nx by (auto intro: filter_cong)
    moreover have "on_local_pokemon F x (L, ops)
                     = (filter (\<lambda>p. id_p p \<noteq> id_p x) L, ops @ [Delete x])"
      using None by (simp add: on_local_pokemon_def)
    ultimately show ?thesis using nx by (simp add: Cons.IH)
  next
    case (Some e)
    then have hx: "id_p x \<in> ids F" using find_same_id_None [of "id_p x" F] by simp
    have "filter (\<lambda>p. id_p p \<in> ids F \<or> id_p p \<notin> ids xs) L
            = filter (\<lambda>p. id_p p \<in> ids F \<or> id_p p \<notin> ids (x # xs)) L"
      using hx by (auto intro: filter_cong)
    moreover have "on_local_pokemon F x (L, ops) = (L, ops)"
      using Some by (simp add: on_local_pokemon_def)
    ultimately show ?thesis using hx by (simp add: Cons.IH)
  qed
qed

lemma delete_pass_eq:
  "delete_pass F (L, ops) =
     (filter (\<lambda>p. id_p p \<in> ids F) L, ops @ map Delete (filter (\<lambda>p. id_p p \<notin> ids F) L))"
proof -
  have "filter (\<lambda>p. id_p p \<in> ids F \<or> id_p p \<notin> ids L) L = filter (\<lambda>p. id_p p \<in> ids F) L"
    by (intro filter_cong) (auto simp: in_ids_iff)
  then show ?thesis by (simp add: delete_pass_def loop2)
qed

section \<open>Lemmas on the whole cycle\<close>

lemma mem_ids: "x \<in> set xs \<Longrightarrow> id_p x \<in> ids xs"
  by (simp add: ids_def)

lemma update_pass_eq:
  "distinct (map id_p F) \<Longrightarrow> update_pass P F = (fold upsert F P, concat (map (step_ops P) F))"
  by (simp add: update_pass_def prod_eq_iff loop1_fst loop1_snd)

lemma update_pass_fst: "fst (update_pass P F) = fold upsert F P"
  by (simp add: update_pass_def loop1_fst)

lemma reconcile_steady:
  "P \<noteq> [] \<Longrightarrow>
     reconcile P F =
       (filter (\<lambda>p. id_p p \<in> ids F) (fst (update_pass P F)),
        snd (update_pass P F) @
          map Delete (filter (\<lambda>p. id_p p \<notin> ids F) (fst (update_pass P F))))"
  using delete_pass_eq [of F "fst (update_pass P F)" "snd (update_pass P F)"]
  by (simp add: reconcile_def)

lemma step_ops_no_Delete: "list_all (\<lambda>op. \<not> is_Delete op) (step_ops L f)"
  by (simp add: step_ops_def split: option.splits)

lemma loop1_no_Delete:
  "list_all (\<lambda>op. \<not> is_Delete op) ops \<Longrightarrow>
     list_all (\<lambda>op. \<not> is_Delete op) (snd (fold on_server_pokemon F (L, ops)))"
proof (induction F arbitrary: L ops)
  case Nil
  then show ?case by simp
next
  case (Cons g F)
  have "list_all (\<lambda>op. \<not> is_Delete op) (ops @ step_ops L g)"
    using Cons.prems step_ops_no_Delete [of L g] by simp
  then show ?case by (simp add: on_server_pokemon_eq Cons.IH)
qed

lemma about_append: "about f (xs @ ys) = about f xs @ about f ys"
  by (simp add: about_def)

lemma step_ops_about:
  "about f (step_ops L g) = (if id_p g = id_p f then step_ops L g else [])"
  by (simp add: about_def step_ops_def split: option.splits)

lemma about_steps:
  "distinct (map id_p F) \<Longrightarrow> f \<in> set F \<Longrightarrow>
     about f (concat (map (step_ops L) F)) = step_ops L f"
proof (induction F)
  case Nil
  then show ?case by simp
next
  case (Cons g F)
  note d = distinct_ids_ConsD [OF Cons.prems(1)]
  show ?case
  proof (cases "g = f")
    case True
    have "about f (concat (map (step_ops L) F)) = []"
      using d(1) True unfolding about_def filter_empty_conv
      by (auto simp: step_ops_def in_ids_iff split: option.splits if_splits)
    with True show ?thesis by (simp add: about_append step_ops_about)
  next
    case False
    with Cons.prems have m: "f \<in> set F" by simp
    then have "id_p g \<noteq> id_p f" using d(1) by (auto simp: in_ids_iff)
    with Cons.IH [OF d(2) m] show ?thesis by (simp add: about_append step_ops_about)
  qed
qed

lemma about_deletes:
  "f \<in> set F \<Longrightarrow> about f (map Delete (filter (\<lambda>p. id_p p \<notin> ids F) L)) = []"
  unfolding about_def filter_empty_conv by (auto simp: in_ids_iff)

lemma reconcile_about:
  assumes "P \<noteq> []" "distinct (map id_p F)" "f \<in> set F"
  shows "about f (snd (reconcile P F)) = step_ops P f"
proof -
  have "about f (snd (reconcile P F))
          = about f (concat (map (step_ops P) F))
            @ about f (map Delete (filter (\<lambda>p. id_p p \<notin> ids F) (fst (update_pass P F))))"
    using assms(1,2) by (simp add: reconcile_steady update_pass_eq about_append)
  then show ?thesis using assms by (simp add: about_steps about_deletes)
qed

lemma reconcile_find:
  assumes "distinct (map id_p F)" "f \<in> set F"
  shows "find (\<lambda>q. id_p q = id_p f) (fst (reconcile P F)) = Some f"
proof (cases "P = []")
  case True
  then show ?thesis using assms by (simp add: reconcile_def find_distinct_ids)
next
  case False
  have "find (\<lambda>q. id_p q = id_p f) (filter (\<lambda>p. id_p p \<in> ids F) (fold upsert F P))
          = find (\<lambda>q. id_p q = id_p f) (fold upsert F P)"
    using assms(2) by (intro find_filter_keep) (auto simp: in_ids_iff)
  with False assms show ?thesis
    by (simp add: reconcile_steady update_pass_fst loop1_find)
qed

lemma reconcile_ids: "ids (fst (reconcile P F)) \<subseteq> ids F"
proof (cases "P = []")
  case True
  then show ?thesis by (simp add: reconcile_def)
next
  case False
  then show ?thesis by (auto simp: reconcile_steady in_ids_iff [of _ "filter _ _"])
qed

lemma loop1_stable:
  "\<forall>f \<in> set F. find (\<lambda>q. id_p q = id_p f) L = Some f \<Longrightarrow>
     fold on_server_pokemon F (L, ops) = (L, ops)"
proof (induction F)
  case Nil
  then show ?case by simp
next
  case (Cons g F)
  then have "on_server_pokemon g (L, ops) = (L, ops)"
    by (simp add: on_server_pokemon_def isEqual_iff)
  with Cons show ?case by simp
qed

lemma reconcile_stable:
  assumes "\<forall>f \<in> set F. find (\<lambda>q. id_p q = id_p f) L = Some f" "ids L \<subseteq> ids F"
  shows "reconcile L F = (L, [])"
proof (cases "L = []")
  case True
  with assms(1) have "F = []" by (cases F) auto
  with True show ?thesis by (simp add: reconcile_def)
next
  case False
  have "\<forall>x \<in> set L. id_p x \<in> ids F"
    using assms(2) mem_ids by blast
  then have "filter (\<lambda>p. id_p p \<in> ids F) L = L" "filter (\<lambda>p. id_p p \<notin> ids F) L = []"
    by (simp_all add: filter_empty_conv filter_id_conv)
  with False show ?thesis
    by (simp add: reconcile_def update_pass_def loop1_stable [OF assms(1)] delete_pass_eq)
qed

section \<open>Lemmas on doubles and on the power route\<close>

lemma div_less_of_less_mult:
  fixes u m c :: int
  assumes "0 < u" "m < c * u"
  shows "m div u < c"
proof (rule ccontr)
  assume "\<not> m div u < c"
  then have "c * u \<le> (m div u) * u" using assms(1) by (simp add: mult_right_mono)
  also have "\<dots> \<le> m"
    using div_mult_mod_eq [of m u] pos_mod_sign [OF assms(1), of m] by linarith
  finally show False using assms(2) by simp
qed

lemma le_div_of_mult_le:
  fixes u m c :: int
  assumes "0 < u" "c * u \<le> m"
  shows "c \<le> m div u"
proof (rule ccontr)
  assume "\<not> c \<le> m div u"
  then have "m div u + 1 \<le> c" by simp
  then have "(m div u + 1) * u \<le> c * u" using assms(1) by (simp add: mult_right_mono)
  moreover have "m < (m div u + 1) * u"
  proof -
    have "m = m div u * u + m mod u" by simp
    moreover have "(m div u + 1) * u = m div u * u + u" by (simp add: distrib_right)
    ultimately show ?thesis using pos_mod_bound [OF assms(1), of m] by linarith
  qed
  ultimately show False using assms(2) by simp
qed

lemma bit_length_pos: "0 < m \<Longrightarrow> 0 < bit_length m"
  by (subst bit_length.simps) simp

lemma bit_length_bounds:
  "0 < m \<Longrightarrow> 2 ^ (bit_length m - 1) \<le> m \<and> m < 2 ^ bit_length m"
proof (induction m rule: bit_length.induct)
  case (1 m)
  show ?case
  proof (cases "m div 2 = 0")
    case True
    with 1(2) have "m = 1" by presburger
    then show ?thesis
      by (simp add: bit_length.simps [of 1] bit_length.simps [of 0])
  next
    case False
    with 1(2) have pos: "0 < m div 2" by presburger
    from 1(2) have "\<not> m \<le> 0" by simp
    from 1(1) [OF this pos]
    have lo: "2 ^ (bit_length (m div 2) - 1) \<le> m div 2"
      and hi: "m div 2 < 2 ^ bit_length (m div 2)" by simp_all
    have L: "bit_length m = Suc (bit_length (m div 2))"
      using 1(2) by (subst bit_length.simps) simp
    obtain k where k: "bit_length (m div 2) = Suc k"
      using bit_length_pos [OF pos] by (cases "bit_length (m div 2)") auto
    from lo k have "2 * 2 ^ k \<le> 2 * (m div 2)" by simp
    then have a: "2 ^ Suc k \<le> m" by (simp; presburger?)
    from hi k have "2 * (m div 2) + 1 < 2 * 2 ^ Suc k" by simp
    then have b: "m < 2 ^ Suc (Suc k)" by (simp; presburger?)
    from a b show ?thesis by (simp add: L k)
  qed
qed

lemma bit_length_unique:
  assumes "2 ^ k \<le> m" "m < 2 ^ Suc k"
  shows "bit_length m = Suc k"
proof -
  have pos: "0 < m" using assms(1) by (smt (verit) zero_less_power)
  note b = bit_length_bounds [OF pos]
  obtain l where l: "bit_length m = Suc l"
    using bit_length_pos [OF pos] by (cases "bit_length m") auto
  from b l have "(2::int) ^ l < 2 ^ Suc k" using assms(2) by simp
  then have "l < Suc k" using power_less_imp_less_exp [of "2::int" l "Suc k"] by simp
  moreover from b l have "(2::int) ^ k < 2 ^ Suc l" using assms(1) by simp
  then have "k < Suc l" using power_less_imp_less_exp [of "2::int" k "Suc l"] by simp
  ultimately show ?thesis using l by simp
qed

lemma round_magnitude_fixed:
  assumes "2 ^ 52 \<le> q" "q \<le> 2 ^ 53"
  shows "round_magnitude (q * 2 ^ k) = q * 2 ^ k"
proof (cases "q * 2 ^ k < 2 ^ 53")
  case True
  then show ?thesis by (simp add: round_magnitude_def)
next
  case big: False
  show ?thesis
  proof (cases "q = 2 ^ 53")
    case True
    have m: "q * 2 ^ k = 2 ^ (53 + k)" using True by (simp add: power_add)
    have "bit_length (2 ^ (53 + k)) = Suc (53 + k)"
      by (rule bit_length_unique) simp_all
    then have L: "bit_length (2 ^ (53 + k)) - 53 = Suc k" by simp
    have e: "(2::int) ^ (53 + k) = 2 ^ 52 * 2 ^ Suc k" by (simp add: power_add)
    have d: "(2::int) ^ (53 + k) div 2 ^ Suc k = 2 ^ 52"
      and r: "(2::int) ^ (53 + k) mod 2 ^ Suc k = 0"
      unfolding e by simp_all
    have nb: "\<not> (2::int) ^ (53 + k) < 2 ^ 53" using big m by simp
    have "round_magnitude (2 ^ (53 + k)) = 2 ^ 52 * 2 ^ Suc k"
      unfolding round_magnitude_def Let_def L d r using nb by simp
    then show ?thesis unfolding m e .
  next
    case False
    with assms have q: "q < 2 ^ 53" by simp
    have "2 ^ (52 + k) \<le> q * 2 ^ k"
      using assms(1) by (simp add: power_add)
    moreover have "q * 2 ^ k < 2 ^ Suc (52 + k)"
      using q by (simp add: power_add)
    ultimately have "bit_length (q * 2 ^ k) = Suc (52 + k)" by (rule bit_length_unique)
    then have L: "bit_length (q * 2 ^ k) - 53 = k" by simp
    show ?thesis
      using big unfolding round_magnitude_def Let_def L by simp
  qed
qed

lemma round_magnitude_shape:
  assumes "2 ^ 53 \<le> m"
  shows "\<exists>q k. round_magnitude m = q * 2 ^ k \<and> 2 ^ 52 \<le> q \<and> q \<le> 2 ^ 53"
proof -
  have pos: "0 < m" using assms by simp
  note b = bit_length_bounds [OF pos]
  have "(2::int) ^ 53 < 2 ^ bit_length m" using assms b by simp
  then have "53 < bit_length m"
    using power_less_imp_less_exp [of "2::int" 53 "bit_length m"] by simp
  then obtain k where k: "bit_length m = 53 + Suc k"
    by (metis add_Suc_right less_imp_Suc_add)
  let ?u = "(2::int) ^ Suc k"
  have u: "0 < ?u" by simp
  from b k have lo: "2 ^ 52 * ?u \<le> m" and hi: "m < 2 ^ 53 * ?u"
    by (simp_all add: power_add)
  have qlo: "2 ^ 52 \<le> m div ?u"
    using u lo by (rule le_div_of_mult_le)
  have qhi: "m div ?u < 2 ^ 53"
    using u hi by (rule div_less_of_less_mult)
  have "round_magnitude m = (m div ?u) * ?u \<or> round_magnitude m = (m div ?u + 1) * ?u"
    using assms unfolding round_magnitude_def Let_def k by simp
  then show ?thesis
  proof
    assume "round_magnitude m = (m div ?u) * ?u"
    with qlo qhi show ?thesis by (intro exI [of _ "m div ?u"] exI [of _ "Suc k"]) simp
  next
    assume "round_magnitude m = (m div ?u + 1) * ?u"
    with qlo qhi show ?thesis by (intro exI [of _ "m div ?u + 1"] exI [of _ "Suc k"]) simp
  qed
qed

lemma round_magnitude_idem: "round_magnitude (round_magnitude m) = round_magnitude m"
proof (cases "m < 2 ^ 53")
  case True
  then show ?thesis by (simp add: round_magnitude_def)
next
  case False
  then obtain q k where "round_magnitude m = q * 2 ^ k" "2 ^ 52 \<le> q" "q \<le> 2 ^ 53"
    using round_magnitude_shape [of m] by auto
  then show ?thesis by (simp add: round_magnitude_fixed)
qed

lemma round_magnitude_pos: "0 < m \<Longrightarrow> 0 < round_magnitude m"
proof (cases "m < 2 ^ 53")
  case True
  assume "0 < m"
  with True show ?thesis by (simp add: round_magnitude_def)
next
  case False
  then obtain q k where "round_magnitude m = q * 2 ^ k" "2 ^ 52 \<le> q" "q \<le> 2 ^ 53"
    using round_magnitude_shape [of m] by auto
  then show ?thesis by simp
qed

lemma round_magnitude_0: "round_magnitude 0 = 0"
  by (simp add: round_magnitude_def)

lemma to_double_is_double: "to_double n = Int_num d \<Longrightarrow> is_double d"
proof -
  assume a: "to_double n = Int_num d"
  let ?m = "round_magnitude \<bar>n\<bar>"
  from a have small: "\<not> 2 ^ 1024 \<le> ?m" and d: "d = (if n < 0 then - ?m else ?m)"
    by (auto simp: to_double_def Let_def split: if_splits)
  have nonneg: "0 \<le> ?m"
    using round_magnitude_pos [of "\<bar>n\<bar>"] round_magnitude_0 by (cases "n = 0") auto
  have "n < 0 \<Longrightarrow> 0 < ?m" using round_magnitude_pos [of "\<bar>n\<bar>"] by simp
  then have sign: "d < 0 \<longleftrightarrow> n < 0" and mag: "\<bar>d\<bar> = ?m"
    using d nonneg by auto
  show ?thesis
    unfolding is_double_def to_double_def Let_def mag round_magnitude_idem sign
    using small d by simp
qed

lemma to_double_safe: "\<bar>n\<bar> \<le> 9007199254740991 \<Longrightarrow> to_double n = Int_num n"
  by (simp add: to_double_def round_magnitude_def Let_def)

lemma place_found_nth:
  "find P xs = Some p \<Longrightarrow> place_found P xs < length xs \<and> xs ! place_found P xs = p"
  by (induction xs) (auto simp: place_found_def split: if_splits)

lemma is_number_plus_change: "is_number (plus_change old change)"
proof (cases old)
  case (Int_num a)
  then show ?thesis
    by (cases "to_double (a + change)") (simp_all add: to_double_is_double)
qed simp_all

lemma is_double_0: "is_double 0"
  by (simp add: is_double_def to_double_safe)

lemma clamped_props: "at_least_zero (clamped old change) \<and> is_number (clamped old change)"
  using is_number_plus_change [of old change]
  by (cases "plus_change old change") (auto simp: clamped_def is_double_0)

lemma clamped_safe:
  "\<bar>old + change\<bar> \<le> 9007199254740991 \<Longrightarrow>
     clamped (Int_num old) change = Int_num (max 0 (old + change))"
  by (auto simp: clamped_def to_double_safe max_def)

lemma power_route_known:
  assumes "find (\<lambda>q. Some (id_s q) = pokemonId) pokemons = Some p"
  shows "power_route pokemonId change pokemons =
           (pokemons[place_found (\<lambda>q. Some (id_s q) = pokemonId) pokemons :=
                       p\<lparr>powerLevel_s := clamped (powerLevel_s p) change\<rparr>],
            \<lparr>status = 200,
             json = Pokemon_body True (p\<lparr>powerLevel_s := clamped (powerLevel_s p) change\<rparr>)\<rparr>)"
  using assms by (simp add: power_route_def Let_def clamped_def)

lemma to_double_examples:
  "to_double (1 + 9007199254740992) = Int_num 9007199254740992"
  "to_double (2 ^ 1023 + 2 ^ 1023) = Pos_Infinity"
  "is_double 9007199254740992" "is_double (2 ^ 1023)" "is_double 1"
  by code_simp+

section \<open>The reconciliation cycle, the fetch and the power route\<close>

text \<open>
  C1 (first load). When the held snapshot is empty, a cycle on the fresh snapshot \<open>F\<close>
  emits one \<open>Create\<close> for each record of \<open>F\<close>, in the order of \<open>F\<close>, and nothing else (no
  \<open>Update\<close>, no \<open>Delete\<close>); afterwards the held snapshot is \<open>F\<close>.
\<close>
theorem bootstrap_creates_all:
  "reconcile [] F = (F, map Create F) \<and> list_all is_Create (snd (reconcile [] F))"
  by (simp add: reconcile_def list_all_iff)

text \<open>
  C1, on a fresh snapshot of two records.
\<close>
theorem bootstrap_creates_all_witness:
  "reconcile [] [bulbasaur10, ivysaur3] =
     ([bulbasaur10, ivysaur3], [Create bulbasaur10, Create ivysaur3])"
  using bootstrap_creates_all [of "[bulbasaur10, ivysaur3]"] by simp

text \<open>
  C2 as it is worded, for every non-empty held snapshot and every fresh snapshot, does not
  hold where an id occurs twice. In the held snapshot \<open>[bulbasaur10, bulbasaur11]\<close> the
  record \<open>bulbasaur11\<close> has the id of the fresh record \<open>bulbasaur10\<close> and another content,
  yet no \<open>Update bulbasaur10\<close> is emitted: the lookup stops at the first record of that id,
  which is equal. In the fresh snapshot \<open>[bulbasaur11, bulbasaur10]\<close> the record
  \<open>bulbasaur10\<close> is equal to the held record of its id, yet \<open>Update bulbasaur10\<close> is
  emitted: the record before it has replaced the held one.
\<close>
theorem update_claim_counterexample:
  "bulbasaur11 \<in> set [bulbasaur10, bulbasaur11] \<and> bulbasaur10 \<in> set [bulbasaur10] \<and>
   id_p bulbasaur11 = id_p bulbasaur10 \<and> \<not> isEqual bulbasaur11 bulbasaur10 \<and>
   Update bulbasaur10 \<notin> set (snd (reconcile [bulbasaur10, bulbasaur11] [bulbasaur10])) \<and>
   bulbasaur10 \<in> set [bulbasaur11, bulbasaur10] \<and> isEqual bulbasaur10 bulbasaur10 \<and>
   snd (reconcile [bulbasaur10] [bulbasaur11, bulbasaur10]) = [Update bulbasaur11, Update bulbasaur10]"
  by (simp add: run_defs example_defs)

text \<open>
  C2, for snapshots that hold at most one record per id. Let \<open>P\<close> (held, non-empty) and
  \<open>F\<close> (fresh) hold at most one record per id, and let \<open>f\<close> in \<open>F\<close> and \<open>p\<close> in \<open>P\<close> have
  the same id. If \<open>p\<close> is not equal to \<open>f\<close>, the operations of the cycle that concern this
  id are exactly \<open>[Update f]\<close> and the first loop leaves \<open>f\<close> at the position of \<open>p\<close>; if
  \<open>p\<close> is equal to \<open>f\<close>, no operation concerns this id and \<open>p\<close> stays where it is. After
  the cycle the record of this id in the held snapshot is \<open>f\<close>. For the held snapshot
  \<open>[bulbasaur10]\<close> (id 1, powerLevel 10) and the fresh snapshot \<open>[bulbasaur11]\<close> (id 1,
  powerLevel 11) the operations are \<open>[Update bulbasaur11]\<close> and the held snapshot becomes
  \<open>[bulbasaur11]\<close>.
\<close>
theorem update_in_place:
  assumes "P \<noteq> []" "distinct (map id_p P)" "distinct (map id_p F)"
    and "p \<in> set P" "f \<in> set F" "id_p p = id_p f"
  shows "about f (snd (reconcile P F)) = (if isEqual p f then [] else [Update f]) \<and>
         (\<exists>i < length P. P ! i = p \<and>
            fst (update_pass P F) ! i = (if isEqual p f then p else f)) \<and>
         find (\<lambda>q. id_p q = id_p f) (fst (reconcile P F)) = Some f \<and>
         reconcile [bulbasaur10] [bulbasaur11] = ([bulbasaur11], [Update bulbasaur11])"
proof -
  have found: "find (\<lambda>q. id_p q = id_p f) P = Some p"
    using find_distinct_ids [OF assms(2,4)] assms(6) by simp
  have ops: "about f (snd (reconcile P F)) = (if isEqual p f then [] else [Update f])"
    using reconcile_about [OF assms(1,3,5)] found by (simp add: step_ops_def)
  from assms(4) obtain i where i: "i < length P" "P ! i = p"
    by (auto simp: in_set_conv_nth)
  have "fold upsert F P ! i = f"
    using assms(3,5,2) i assms(6) by (intro loop1_nth) simp_all
  then have "fst (update_pass P F) ! i = (if isEqual p f then p else f)"
    by (simp add: update_pass_fst isEqual_iff)
  with i have pos: "\<exists>i < length P. P ! i = p \<and>
            fst (update_pass P F) ! i = (if isEqual p f then p else f)" by blast
  have ex: "reconcile [bulbasaur10] [bulbasaur11] = ([bulbasaur11], [Update bulbasaur11])"
    by (simp add: run_defs example_defs)
  from ops pos reconcile_find [OF assms(3,5)] ex show ?thesis by blast
qed

text \<open>
  C2, on a held snapshot of two records of which the fresh snapshot changes one.
\<close>
theorem update_in_place_witness:
  "about bulbasaur11 (snd (reconcile [bulbasaur10, ivysaur3] [ivysaur3, bulbasaur11]))
     = [Update bulbasaur11] \<and>
   about ivysaur3 (snd (reconcile [bulbasaur10, ivysaur3] [ivysaur3, bulbasaur11])) = []"
  using update_in_place [of "[bulbasaur10, ivysaur3]" "[ivysaur3, bulbasaur11]" bulbasaur10 bulbasaur11]
    update_in_place [of "[bulbasaur10, ivysaur3]" "[ivysaur3, bulbasaur11]" ivysaur3 ivysaur3]
  by (simp add: example_defs isEqual_iff)

text \<open>
  C3 (removal). For a non-empty held snapshot \<open>P\<close> and a fresh snapshot \<open>F\<close>: the first loop
  emits no \<open>Delete\<close>; after it, each record of the held snapshot whose id does not occur in
  \<open>F\<close> gives one \<open>Delete\<close> of that record, emitted after all operations of the first loop
  and in the order of the held snapshot, and the records that remain are those whose id
  occurs in \<open>F\<close>. For the held snapshot \<open>[bulbasaur10]\<close> and the empty fresh snapshot the
  operations are \<open>[Delete bulbasaur10]\<close> and the held snapshot becomes empty.
\<close>
theorem delete_after_updates:
  assumes "P \<noteq> []"
  shows "reconcile P F =
           (filter (\<lambda>p. id_p p \<in> ids F) (fst (update_pass P F)),
            snd (update_pass P F) @
              map Delete (filter (\<lambda>p. id_p p \<notin> ids F) (fst (update_pass P F)))) \<and>
         list_all (\<lambda>op. \<not> is_Delete op) (snd (update_pass P F)) \<and>
         reconcile [bulbasaur10] [] = ([], [Delete bulbasaur10])"
proof -
  have "list_all (\<lambda>op. \<not> is_Delete op) (snd (update_pass P F))"
    unfolding update_pass_def by (rule loop1_no_Delete) simp
  moreover have "reconcile [bulbasaur10] [] = ([], [Delete bulbasaur10])"
    by (simp add: run_defs example_defs)
  ultimately show ?thesis using reconcile_steady [OF assms] by simp
qed

text \<open>
  C3, on a cycle that updates one record and removes another.
\<close>
theorem delete_after_updates_witness:
  "reconcile [bulbasaur10, ivysaur3] [bulbasaur11] =
     ([bulbasaur11], [Update bulbasaur11, Delete ivysaur3])"
  using delete_after_updates [of "[bulbasaur10, ivysaur3]" "[bulbasaur11]"]
  by (simp add: update_pass_def on_server_pokemon_def isEqual_iff indexOf_found_def ids_def
        example_defs)

text \<open>
  C4 as it is worded, for every fresh snapshot, does not hold where the fresh snapshot
  holds an id twice: \<open>ivysaur4\<close> has an id that the held snapshot \<open>[bulbasaur10]\<close> lacks,
  yet no \<open>Create ivysaur4\<close> is emitted, because \<open>ivysaur3\<close>, of the same id and earlier in
  the fresh snapshot, has been appended before and \<open>ivysaur4\<close> updates it.
\<close>
theorem create_claim_counterexample:
  "ivysaur4 \<in> set [bulbasaur10, ivysaur3, ivysaur4] \<and>
   id_p ivysaur4 \<notin> id_p ` set [bulbasaur10] \<and>
   reconcile [bulbasaur10] [bulbasaur10, ivysaur3, ivysaur4] =
     ([bulbasaur10, ivysaur4], [Create ivysaur3, Update ivysaur4]) \<and>
   Create ivysaur4 \<notin> set (snd (reconcile [bulbasaur10] [bulbasaur10, ivysaur3, ivysaur4]))"
  by (simp add: run_defs example_defs)

text \<open>
  C4, for a fresh snapshot that holds at most one record per id. Let \<open>P\<close> be held and
  non-empty, and let \<open>F\<close> hold at most one record per id. For each \<open>f\<close> in \<open>F\<close> whose id
  does not occur in \<open>P\<close>, the operations of the cycle that concern this id are exactly
  \<open>[Create f]\<close>; the first loop appends to the held snapshot, behind the places of \<open>P\<close>,
  exactly the records of \<open>F\<close> whose id does not occur in \<open>P\<close>, in the order of \<open>F\<close>; and
  after the cycle the record of this id in the held snapshot is \<open>f\<close>. For the held snapshot
  \<open>[bulbasaur10]\<close> and the fresh snapshot \<open>[bulbasaur10, ivysaur3]\<close> the operations are
  \<open>[Create ivysaur3]\<close> only.
\<close>
theorem create_appends:
  assumes "P \<noteq> []" "distinct (map id_p F)" "f \<in> set F" "id_p f \<notin> ids P"
  shows "about f (snd (reconcile P F)) = [Create f] \<and>
         drop (length P) (fst (update_pass P F)) = filter (\<lambda>g. id_p g \<notin> ids P) F \<and>
         find (\<lambda>q. id_p q = id_p f) (fst (reconcile P F)) = Some f \<and>
         reconcile [bulbasaur10] [bulbasaur10, ivysaur3] =
           ([bulbasaur10, ivysaur3], [Create ivysaur3])"
proof -
  have "find (\<lambda>q. id_p q = id_p f) P = None"
    using assms(4) by (simp add: find_same_id_None)
  then have ops: "about f (snd (reconcile P F)) = [Create f]"
    using reconcile_about [OF assms(1,2,3)] by (simp add: step_ops_def)
  have tail: "drop (length P) (fst (update_pass P F)) = filter (\<lambda>g. id_p g \<notin> ids P) F"
    using assms(2) by (simp add: update_pass_fst loop1_drop)
  have ex: "reconcile [bulbasaur10] [bulbasaur10, ivysaur3] =
           ([bulbasaur10, ivysaur3], [Create ivysaur3])"
    by (simp add: run_defs example_defs)
  from ops tail reconcile_find [OF assms(2,3)] ex show ?thesis by blast
qed

text \<open>
  C4, on a fresh snapshot that brings one new record and changes the held one.
\<close>
theorem create_appends_witness:
  "about ivysaur3 (snd (reconcile [bulbasaur10] [ivysaur3, bulbasaur11])) = [Create ivysaur3] \<and>
   drop 1 (fst (update_pass [bulbasaur10] [ivysaur3, bulbasaur11])) = [ivysaur3]"
  using create_appends [of "[bulbasaur10]" "[ivysaur3, bulbasaur11]" ivysaur3]
  by (simp add: example_defs ids_def)

text \<open>
  C5 as it is worded, for every fresh snapshot, does not hold where the fresh snapshot
  holds an id twice: after the first load of \<open>[bulbasaur10, bulbasaur11]\<close> a second cycle
  with the same fresh snapshot emits \<open>Update bulbasaur11\<close>; the same input is a non-empty
  held snapshot with a fresh snapshot equal to it in content, and the cycle emits an
  operation.
\<close>
theorem idempotence_claim_counterexample:
  "snd (reconcile (fst (reconcile [] [bulbasaur10, bulbasaur11])) [bulbasaur10, bulbasaur11])
     = [Update bulbasaur11] \<and>
   [bulbasaur10, bulbasaur11] \<noteq> [] \<and>
   mset [bulbasaur10, bulbasaur11] = mset [bulbasaur10, bulbasaur11] \<and>
   snd (reconcile [bulbasaur10, bulbasaur11] [bulbasaur10, bulbasaur11]) \<noteq> []"
  by (simp add: run_defs example_defs)

text \<open>
  C5, for a fresh snapshot that holds at most one record per id. Let \<open>F\<close> hold at most one
  record per id. After a cycle on \<open>F\<close> from any held snapshot \<open>P\<close>, a second cycle on the
  same \<open>F\<close> emits no operation and leaves the held snapshot as it is; and for a non-empty
  held snapshot \<open>P\<close> with the same records as \<open>F\<close>, in any order, the cycle emits no
  operation and leaves \<open>P\<close> as it is.
\<close>
theorem second_run_is_silent:
  assumes "distinct (map id_p F)"
  shows "reconcile (fst (reconcile P F)) F = (fst (reconcile P F), []) \<and>
         (P \<noteq> [] \<and> mset F = mset P \<longrightarrow> reconcile P F = (P, []))"
proof -
  have one: "reconcile (fst (reconcile P F)) F = (fst (reconcile P F), [])"
    using reconcile_find [OF assms] reconcile_ids [of P F] by (intro reconcile_stable) simp_all
  have two: "reconcile P F = (P, [])" if "mset F = mset P"
  proof -
    from that have s: "set F = set P" by (rule mset_eq_setD)
    from that have "mset (map id_p F) = mset (map id_p P)" by simp
    then have d: "distinct (map id_p P)" using assms by (metis mset_eq_imp_distinct_iff)
    have "\<forall>f \<in> set F. find (\<lambda>q. id_p q = id_p f) P = Some f"
      using d s by (simp add: find_distinct_ids)
    moreover have "ids P \<subseteq> ids F" using s by (simp add: ids_def)
    ultimately show ?thesis by (rule reconcile_stable)
  qed
  from one two show ?thesis by blast
qed

text \<open>
  C5, on a second cycle after an update and a creation, and on a fresh snapshot that is
  the held one in another order.
\<close>
theorem second_run_is_silent_witness:
  "reconcile (fst (reconcile [bulbasaur10] [ivysaur3, bulbasaur11])) [ivysaur3, bulbasaur11]
     = ([bulbasaur11, ivysaur3], []) \<and>
   reconcile [bulbasaur10, ivysaur3] [ivysaur3, bulbasaur10] = ([bulbasaur10, ivysaur3], [])"
proof -
  have d: "distinct (map id_p [ivysaur3, bulbasaur11])" "distinct (map id_p [ivysaur3, bulbasaur10])"
    by (simp_all add: example_defs)
  have l: "fst (reconcile [bulbasaur10] [ivysaur3, bulbasaur11]) = [bulbasaur11, ivysaur3]"
    by (simp add: run_defs example_defs)
  have m: "mset [ivysaur3, bulbasaur10] = mset [bulbasaur10, ivysaur3]" by simp
  show ?thesis
    using second_run_is_silent [OF d(1), of "[bulbasaur10]"]
      second_run_is_silent [OF d(2), of "[bulbasaur10, ivysaur3]"] l m
    by simp
qed

text \<open>
  C10 (ids stay unique). If the held snapshot holds at most one record per id and the
  fresh snapshot holds at most one record per id, the held snapshot after the cycle holds
  at most one record per id: after the reconciliation itself, and after a whole fetch
  cycle whatever the fetch gave (a response with this fresh snapshot, a body that does not
  parse, or no response).
\<close>
theorem ids_stay_unique:
  assumes "distinct (map id_p P)" "distinct (map id_p F)"
  shows "distinct (map id_p (fst (reconcile P F))) \<and>
         distinct (map id_p (local_after (fetchPokemons (Http_response ok (Some F)) P))) \<and>
         distinct (map id_p (local_after (fetchPokemons (Http_response ok None) P))) \<and>
         distinct (map id_p (local_after (fetchPokemons Network_failure P)))"
proof -
  have r: "distinct (map id_p (fst (reconcile P F)))"
  proof (cases "P = []")
    case True
    then show ?thesis using assms(2) by (simp add: reconcile_def)
  next
    case False
    have "distinct (map id_p (fold upsert F P))" using assms(1) by (rule loop1_distinct)
    then show ?thesis using False
      by (simp add: reconcile_steady update_pass_fst distinct_map_filter)
  qed
  then have "distinct (map id_p (local_after (fetchPokemons (Http_response ok (Some F)) P)))"
    using assms(1) by (cases "reconcile P F") (simp add: fetchPokemons_def)
  with r assms(1) show ?thesis by (simp add: fetchPokemons_def)
qed

text \<open>
  C10, on a cycle that updates one record and removes another.
\<close>
theorem ids_stay_unique_witness:
  "distinct (map id_p (fst (reconcile [bulbasaur10, ivysaur3] [ivysaur4])))"
  using ids_stay_unique [of "[bulbasaur10, ivysaur3]" "[ivysaur4]"]
  by (simp add: example_defs)

text \<open>
  C8 (a failed fetch changes nothing). If the request throws, or the response is not
  \<^verbatim>\<open>ok\<close>, or its body does not parse, the cycle leaves the held snapshot as it was,
  emits no operation and writes the error to the console; the next tick runs on the
  snapshot the failed cycle found.
\<close>
theorem failed_fetch_keeps_snapshot:
  assumes "failed r"
  shows "fetchPokemons r localPokemons =
           \<lparr>local_after = localPokemons, emitted = [], console_error = True\<rparr> \<and>
         poll (r # rs) localPokemons = poll rs localPokemons"
  using assms by (cases r) (auto simp: fetchPokemons_def split: option.splits)

text \<open>
  C8, on a response that is not \<^verbatim>\<open>ok\<close> and on a request that throws before a tick that
  succeeds.
\<close>
theorem failed_fetch_keeps_snapshot_witness:
  "local_after (fetchPokemons (Http_response False (Some [ivysaur3])) [bulbasaur10]) = [bulbasaur10] \<and>
   poll [Network_failure, Http_response True (Some [bulbasaur11])] [bulbasaur10] = [bulbasaur11]"
proof -
  have "poll [Http_response True (Some [bulbasaur11])] [bulbasaur10] = [bulbasaur11]"
    by (simp add: fetchPokemons_def run_defs example_defs)
  then show ?thesis
    using failed_fetch_keeps_snapshot [of "Http_response False (Some [ivysaur3])" "[bulbasaur10]" "[]"]
      failed_fetch_keeps_snapshot [of Network_failure "[bulbasaur10]"
         "[Http_response True (Some [bulbasaur11])]"]
    by simp
qed

text \<open>
  C9 as it is worded, for every integer \<open>change\<close>, does not hold where the sum leaves the
  integers that a double holds exactly. With the stored powerLevel 1 and the change
  \<open>2^53 = 9007199254740992\<close> the route stores \<open>9007199254740992\<close>, not
  \<open>1 + 9007199254740992\<close>; with the stored powerLevel \<open>2^1023\<close> and the change \<open>2^1023\<close>
  it stores \<^verbatim>\<open>Infinity\<close>, which is no integer. Both changes and both stored values are
  JavaScript numbers.
\<close>
theorem power_route_claim_counterexample:
  "is_double 9007199254740992 \<and> is_number (powerLevel_s stored1) \<and>
   power_route (Some 1) 9007199254740992 [stored1] =
     ([stored1\<lparr>powerLevel_s := Int_num 9007199254740992\<rparr>],
      \<lparr>status = 200,
       json = Pokemon_body True (stored1\<lparr>powerLevel_s := Int_num 9007199254740992\<rparr>)\<rparr>) \<and>
   powerLevel_s stored1 = Int_num 1 \<and>
   max 0 (1 + 9007199254740992) \<noteq> (9007199254740992 :: int) \<and>
   is_double (2 ^ 1023) \<and> is_number (powerLevel_s stored_huge) \<and>
   powerLevel_s stored_huge = Int_num (2 ^ 1023) \<and>
   fst (power_route (Some 1) (2 ^ 1023) [stored_huge]) =
     [stored_huge\<lparr>powerLevel_s := Pos_Infinity\<rparr>]"
proof -
  have f1: "find (\<lambda>q. Some (id_s q) = Some 1) [stored1] = Some stored1"
    and f2: "find (\<lambda>q. Some (id_s q) = Some 1) [stored_huge] = Some stored_huge"
    by (simp_all add: stored1_def stored_huge_def)
  have p1: "place_found (\<lambda>q. Some (id_s q) = Some 1) [stored1] = 0"
    and p2: "place_found (\<lambda>q. Some (id_s q) = Some 1) [stored_huge] = 0"
    by (simp_all add: place_found_def stored1_def stored_huge_def)
  have c1: "clamped (powerLevel_s stored1) 9007199254740992 = Int_num 9007199254740992"
    using to_double_examples(1) by (simp add: clamped_def stored1_def)
  have c2: "clamped (powerLevel_s stored_huge) (2 ^ 1023) = Pos_Infinity"
    using to_double_examples(2) by (simp add: clamped_def stored_huge_def)
  have n: "is_number (powerLevel_s stored1)" "is_number (powerLevel_s stored_huge)"
    using to_double_examples(4,5) by (simp_all add: stored1_def stored_huge_def)
  have v: "powerLevel_s stored1 = Int_num 1" "powerLevel_s stored_huge = Int_num (2 ^ 1023)"
    by (simp_all add: stored1_def stored_huge_def)
  show ?thesis
    using power_route_known [OF f1, of 9007199254740992] power_route_known [OF f2, of "2 ^ 1023"]
      to_double_examples(3,4) n v
    unfolding p1 p2 c1 c2 by simp
qed

text \<open>
  C9, with the sum as JavaScript computes it. Let \<open>change\<close> be an integer that is a
  JavaScript number and let the store hold JavaScript numbers. For a known id the route
  stores, in the entity of that id, the double nearest to \<open>powerLevel + change\<close>, or 0 when
  that is below 0; the stored value is at least 0 (a non-negative integer or
  \<^verbatim>\<open>Infinity\<close>), and it is \<open>max 0 (powerLevel + change)\<close> itself whenever
  \<open>powerLevel + change\<close> lies between \<open>- 9007199254740991\<close> and \<open>9007199254740991\<close>
  (the safe integers). The answer
  has status 200 and the body \<^verbatim>\<open>{success: true, pokemon}\<close> holding the entity as
  stored. For an unknown id the store stays as it is and the answer has status 404 and the
  body \<^verbatim>\<open>{success: false, message}\<close>. In both cases the store holds JavaScript numbers
  afterwards.
\<close>
theorem power_route_rounds_and_clamps:
  assumes "is_double change" "\<forall>q \<in> set pokemons. is_number (powerLevel_s q)"
  shows
  "(\<forall>p. find (\<lambda>q. Some (id_s q) = pokemonId) pokemons = Some p \<longrightarrow>
      power_route pokemonId change pokemons =
        (pokemons[place_found (\<lambda>q. Some (id_s q) = pokemonId) pokemons :=
                    p\<lparr>powerLevel_s := clamped (powerLevel_s p) change\<rparr>],
         \<lparr>status = 200,
          json = Pokemon_body True (p\<lparr>powerLevel_s := clamped (powerLevel_s p) change\<rparr>)\<rparr>) \<and>
      pokemons ! place_found (\<lambda>q. Some (id_s q) = pokemonId) pokemons = p \<and>
      at_least_zero (clamped (powerLevel_s p) change) \<and>
      (\<forall>old. powerLevel_s p = Int_num old \<and> \<bar>old + change\<bar> \<le> 9007199254740991 \<longrightarrow>
         clamped (powerLevel_s p) change = Int_num (max 0 (old + change)))) \<and>
   (find (\<lambda>q. Some (id_s q) = pokemonId) pokemons = None \<longrightarrow>
      power_route pokemonId change pokemons =
        (pokemons, \<lparr>status = 404, json = Message_body False not_found_message\<rparr>)) \<and>
   (\<forall>q \<in> set (fst (power_route pokemonId change pokemons)). is_number (powerLevel_s q))"
proof -
  have known: "power_route pokemonId change pokemons =
        (pokemons[place_found (\<lambda>q. Some (id_s q) = pokemonId) pokemons :=
                    p\<lparr>powerLevel_s := clamped (powerLevel_s p) change\<rparr>],
         \<lparr>status = 200,
          json = Pokemon_body True (p\<lparr>powerLevel_s := clamped (powerLevel_s p) change\<rparr>)\<rparr>) \<and>
      pokemons ! place_found (\<lambda>q. Some (id_s q) = pokemonId) pokemons = p \<and>
      at_least_zero (clamped (powerLevel_s p) change) \<and>
      (\<forall>old. powerLevel_s p = Int_num old \<and> \<bar>old + change\<bar> \<le> 9007199254740991 \<longrightarrow>
         clamped (powerLevel_s p) change = Int_num (max 0 (old + change)))"
    if f: "find (\<lambda>q. Some (id_s q) = pokemonId) pokemons = Some p" for p
    using power_route_known [OF f, of change] place_found_nth [OF f] clamped_props [of "powerLevel_s p" change]
    by (auto simp: clamped_safe)
  have unknown: "power_route pokemonId change pokemons =
        (pokemons, \<lparr>status = 404, json = Message_body False not_found_message\<rparr>)"
    if "find (\<lambda>q. Some (id_s q) = pokemonId) pokemons = None"
    using that by (simp add: power_route_def)
  have inv: "\<forall>q \<in> set (fst (power_route pokemonId change pokemons)). is_number (powerLevel_s q)"
  proof (cases "find (\<lambda>q. Some (id_s q) = pokemonId) pokemons")
    case None
    then show ?thesis using assms(2) by (simp add: unknown)
  next
    case (Some p)
    have "set (pokemons[place_found (\<lambda>q. Some (id_s q) = pokemonId) pokemons :=
                    p\<lparr>powerLevel_s := clamped (powerLevel_s p) change\<rparr>])
            \<subseteq> insert (p\<lparr>powerLevel_s := clamped (powerLevel_s p) change\<rparr>) (set pokemons)"
      by (rule set_update_subset_insert)
    then show ?thesis
      using assms(2) clamped_props [of "powerLevel_s p" change]
      by (auto simp: power_route_known [OF Some])
  qed
  from known unknown inv show ?thesis by blast
qed

text \<open>
  C9, on a decrease below 0 of a known entity and on an unknown id.
\<close>
theorem power_route_rounds_and_clamps_witness:
  "power_route (Some 2) (- 5) [stored1, stored3] =
     ([stored1, stored3\<lparr>powerLevel_s := Int_num 0\<rparr>],
      \<lparr>status = 200, json = Pokemon_body True (stored3\<lparr>powerLevel_s := Int_num 0\<rparr>)\<rparr>) \<and>
   power_route (Some 7) 1 [stored1, stored3] =
     ([stored1, stored3], \<lparr>status = 404, json = Message_body False not_found_message\<rparr>)"
proof -
  have a: "find (\<lambda>q. Some (id_s q) = Some 2) [stored1, stored3] = Some stored3"
    and b: "find (\<lambda>q. Some (id_s q) = Some 7) [stored1, stored3] = None"
    and c: "place_found (\<lambda>q. Some (id_s q) = Some 2) [stored1, stored3] = 1"
    by (simp_all add: stored1_def stored3_def place_found_def)
  have d: "is_double (- 5)" "is_double 1" "is_double 3"
    by (simp_all add: is_double_def to_double_safe)
  then have n: "\<forall>q \<in> set [stored1, stored3]. is_number (powerLevel_s q)"
    by (simp add: stored1_def stored3_def)
  have v: "powerLevel_s stored3 = Int_num 3" "\<bar>3 + (- 5 :: int)\<bar> \<le> 9007199254740991"
    "max 0 (3 + (- 5 :: int)) = 0"
    by (simp_all add: stored3_def)
  show ?thesis
    using power_route_rounds_and_clamps [OF d(1) n, of "Some 2"]
      power_route_rounds_and_clamps [OF d(2) n, of "Some 7"] a b c v
    by simp
qed

section \<open>The Equality Checker on composites and on primitives\<close>

lemma deepEqual_size_rejects:
  "composite a \<Longrightarrow> composite b \<Longrightarrow> length (Object_keys a) \<noteq> length (Object_keys b) \<Longrightarrow>
     \<not> deepEqual a b"
  by (simp add: deepEqual_composite_unfold)

text \<open>
  C6 (composites). Two composite records are \<open>deepEqual\<close> exactly when they have the same
  set of keys, in any order, and under every key two values that are \<open>deepEqual\<close>; composites
  with different numbers of keys are rejected on the count alone; two arrays are
  \<open>deepEqual\<close> exactly when they have the same length and are \<open>deepEqual\<close> element by
  element. \<^verbatim>\<open>{a:1,b:{c:2}}\<close> equals \<^verbatim>\<open>{a:1,b:{c:2}}\<close>, \<^verbatim>\<open>{a:1}\<close> does not equal
  \<^verbatim>\<open>{a:1,b:2}\<close>, and \<^verbatim>\<open>{a:[1,2]}\<close> equals \<^verbatim>\<open>{a:[1,2]}\<close>.
\<close>
theorem deepEqual_composites:
  assumes "composite a" "composite b"
    and "distinct (Object_keys a)" "distinct (Object_keys b)"
  shows "(deepEqual a b \<longleftrightarrow>
            set (Object_keys a) = set (Object_keys b) \<and>
            (\<forall>key \<in> set (Object_keys a). deepEqual (get a key) (get b key))) \<and>
         (length (Object_keys a) \<noteq> length (Object_keys b) \<longrightarrow> \<not> deepEqual a b) \<and>
         (deepEqual (JArr xs) (JArr ys) \<longleftrightarrow> length xs = length ys \<and> list_all2 deepEqual xs ys) \<and>
         deepEqual (JObj [(''a'', JNum 1), (''b'', JObj [(''c'', JNum 2)])])
                   (JObj [(''a'', JNum 1), (''b'', JObj [(''c'', JNum 2)])]) \<and>
         \<not> deepEqual (JObj [(''a'', JNum 1)]) (JObj [(''a'', JNum 1), (''b'', JNum 2)]) \<and>
         deepEqual (JObj [(''a'', JArr [JNum 1, JNum 2])]) (JObj [(''a'', JArr [JNum 1, JNum 2])])"
proof -
  have ex2: "\<not> deepEqual (JObj [(''a'', JNum 1)]) (JObj [(''a'', JNum 1), (''b'', JNum 2)])"
    by (rule deepEqual_size_rejects) (simp_all add: composite_def Object_keys_def)
  show ?thesis
    using deepEqual_composite_iff [OF assms] deepEqual_size_rejects [OF assms(1,2)]
      deepEqual_arrays [of xs ys] deepEqual_refl ex2
    by blast
qed

text \<open>
  C6, on objects whose keys come in another order, whose values differ, whose keys differ,
  and whose array fields differ in one element.
\<close>
theorem deepEqual_composites_witness:
  "deepEqual (JObj [(''a'', JNum 1), (''b'', JStr ''x'')]) (JObj [(''b'', JStr ''x''), (''a'', JNum 1)]) \<and>
   \<not> deepEqual (JObj [(''a'', JNum 1), (''b'', JStr ''x'')]) (JObj [(''b'', JStr ''y''), (''a'', JNum 1)]) \<and>
   \<not> deepEqual (JObj [(''a'', JNum 1), (''b'', JStr ''x'')]) (JObj [(''c'', JStr ''x''), (''a'', JNum 1)]) \<and>
   \<not> deepEqual (JObj [(''a'', JArr [JNum 1, JNum 2])]) (JObj [(''a'', JArr [JNum 1, JNum 3])])"
proof -
  let ?a = "JObj [(''a'', JNum 1), (''b'', JStr ''x'')]"
  let ?b = "JObj [(''b'', JStr ''x''), (''a'', JNum 1)]"
  let ?c = "JObj [(''b'', JStr ''y''), (''a'', JNum 1)]"
  let ?d = "JObj [(''c'', JStr ''x''), (''a'', JNum 1)]"
  let ?e = "JObj [(''a'', JArr [JNum 1, JNum 2])]"
  let ?f = "JObj [(''a'', JArr [JNum 1, JNum 3])]"
  have prim: "deepEqual (JNum 1) (JNum 1)" "deepEqual (JStr ''x'') (JStr ''x'')"
    "\<not> deepEqual (JStr ''x'') (JStr ''y'')" "\<not> deepEqual (JNum 2) (JNum 3)"
    "deepEqual (JNum 2) (JNum 2)" "\<not> deepEqual (JStr ''x'') JUndefined"
    by (simp_all add: deepEqual_primitive composite_def)
  have 1: "deepEqual ?a ?b"
    using deepEqual_composites [of ?a ?b] prim
    by (simp add: composite_def Object_keys_def get_def insert_commute)
  have 2: "\<not> deepEqual ?a ?c"
    using deepEqual_composites [of ?a ?c] prim
    by (simp add: composite_def Object_keys_def get_def insert_commute)
  have 3: "\<not> deepEqual ?a ?d"
    using deepEqual_composites [of ?a ?d] prim
    by (simp add: composite_def Object_keys_def get_def)
  have "\<not> deepEqual (JArr [JNum 1, JNum 2]) (JArr [JNum 1, JNum 3])"
    using deepEqual_composites [of ?e ?f "[JNum 1, JNum 2]" "[JNum 1, JNum 3]"] prim
    by (simp add: composite_def Object_keys_def)
  then have 4: "\<not> deepEqual ?e ?f"
    using deepEqual_composites [of ?e ?f]
    by (simp add: composite_def Object_keys_def get_def)
  from 1 2 3 4 show ?thesis by blast
qed

text \<open>
  C7 (primitives and null). When at least one of the two values is not a composite record
  (it is a primitive, or null), \<open>deepEqual\<close> is strict equality, without coercion: null
  does not equal \<^verbatim>\<open>{}\<close>, 5 equals 5, 5 does not equal the string "5", null does not
  equal \<^verbatim>\<open>undefined\<close>, 0 does not equal false.
\<close>
theorem deepEqual_primitives:
  assumes "\<not> composite a \<or> \<not> composite b"
  shows "deepEqual a b = strict_eq a b \<and>
         \<not> deepEqual JNull (JObj []) \<and> deepEqual (JNum 5) (JNum 5) \<and>
         \<not> deepEqual (JNum 5) (JStr ''5'') \<and> \<not> deepEqual JNull JUndefined \<and>
         \<not> deepEqual (JNum 0) (JBool False)"
  using assms by (simp add: deepEqual_primitive composite_def)

text \<open>
  C7, on two equal strings, on a number against an object, and on an array against null.
\<close>
theorem deepEqual_primitives_witness:
  "deepEqual (JStr ''pikachu'') (JStr ''pikachu'') \<and> \<not> deepEqual (JNum 1) (JObj [(''id'', JNum 1)]) \<and>
   \<not> deepEqual (JArr []) JNull"
  using deepEqual_primitives [of "JStr ''pikachu''" "JStr ''pikachu''"]
    deepEqual_primitives [of "JNum 1" "JObj [(''id'', JNum 1)]"]
    deepEqual_primitives [of "JArr []" JNull]
  by (simp add: composite_def)

end
